theory Spec2Isabelle
  imports Main "HOL-Library.Word"
begin

section \<open>Go slices over an explicit store of backing arrays\<close>

text \<open>
  The session manager keeps \<^verbatim>\<open>Sessions []*Session\<close>, a Go slice. A slice is a
  header (pointer into a backing array, length, capacity); slicing shares the backing
  array, \<^verbatim>\<open>append\<close> writes in place while the capacity suffices and moves to a
  fresh array otherwise, and a \<^verbatim>\<open>for key, val := range s\<close> loop copies the header
  once and reads the backing array cell by cell. \<^verbatim>\<open>DropSession\<close> and
  \<^verbatim>\<open>CleanSessions\<close> reassign \<^verbatim>\<open>manager.Sessions\<close> inside such a loop, so
  the store of backing arrays is explicit here.

  A cell holds a pointer: \<open>None\<close> is Go's \<^verbatim>\<open>nil\<close> (the zero value of fresh
  capacity), \<open>Some p\<close> the address of an object. A backing array is the list of its
  cells, and its length is the size of the allocation.
\<close>

datatype panic = SliceBounds | IndexRange | NilDeref

type_synonym addr = nat

type_synonym cell = "addr option"

type_synonym arrays = "cell list list"

record slice =
  sbase :: addr
  soff :: nat
  slen :: nat

text \<open>\<^verbatim>\<open>cap(s)\<close>: what is left of the allocation from the slice's first cell on.\<close>

definition cap :: "arrays \<Rightarrow> slice \<Rightarrow> nat" where
  "cap H s = length (H ! sbase s) - soff s"

text \<open>The cells a slice shows, in order.\<close>

definition elems :: "arrays \<Rightarrow> slice \<Rightarrow> cell list" where
  "elems H s = take (slen s) (drop (soff s) (H ! sbase s))"

text \<open>\<^verbatim>\<open>s[lo:]\<close> panics unless \<open>lo \<le> len(s)\<close>.\<close>

definition slice_from :: "slice \<Rightarrow> nat \<Rightarrow> panic + slice" where
  "slice_from s lo =
     (if lo \<le> slen s then Inr \<lparr>sbase = sbase s, soff = soff s + lo, slen = slen s - lo\<rparr>
      else Inl SliceBounds)"

text \<open>\<^verbatim>\<open>s[:hi]\<close> panics unless \<open>hi \<le> cap(s)\<close>; it may reach beyond \<open>len(s)\<close>.\<close>

definition slice_upto :: "arrays \<Rightarrow> slice \<Rightarrow> nat \<Rightarrow> panic + slice" where
  "slice_upto H s hi =
     (if hi \<le> cap H s then Inr \<lparr>sbase = sbase s, soff = soff s, slen = hi\<rparr>
      else Inl SliceBounds)"

text \<open>\<^verbatim>\<open>s[i]\<close> panics unless \<open>i < len(s)\<close>.\<close>

definition index :: "arrays \<Rightarrow> slice \<Rightarrow> nat \<Rightarrow> panic + cell" where
  "index H s i =
     (if i < slen s then Inr (H ! sbase s ! (soff s + i)) else Inl IndexRange)"

definition store_at :: "'a list \<Rightarrow> nat \<Rightarrow> 'a list \<Rightarrow> 'a list" where
  "store_at a i xs = take i a @ xs @ drop (i + length xs) a"

text \<open>
  \<^verbatim>\<open>append(s, xs...)\<close>. While \<open>len(s) + len(xs) \<le> cap(s)\<close> the new cells are
  written into the backing array behind the slice. Otherwise a fresh array is
  allocated, holding the slice's cells, the new ones, and zeroed spare capacity; how
  much spare capacity the runtime adds is the parameter \<open>g\<close> (old capacity, needed
  length), so that every growth policy is covered.
\<close>

definition append_slice :: "(nat \<Rightarrow> nat \<Rightarrow> nat) \<Rightarrow> arrays \<Rightarrow> slice \<Rightarrow> cell list \<Rightarrow> arrays \<times> slice" where
  "append_slice g H s xs =
     (if slen s + length xs \<le> cap H s
      then (H[sbase s := store_at (H ! sbase s) (soff s + slen s) xs],
            s\<lparr>slen := slen s + length xs\<rparr>)
      else (H @ [elems H s @ xs @ replicate (g (cap H s) (slen s + length xs)) None],
            \<lparr>sbase = length H, soff = 0, slen = slen s + length xs\<rparr>))"

text \<open>The literal \<^verbatim>\<open>[]*Session{}\<close>: an empty slice of capacity 0.\<close>

definition empty_lit :: "arrays \<Rightarrow> arrays \<times> slice" where
  "empty_lit H = (H @ [[]], \<lparr>sbase = length H, soff = 0, slen = 0\<rparr>)"

section \<open>The session manager\<close>

text \<open>
  Modelled from the spec: the declaration of \<^verbatim>\<open>Session\<close> and \<^verbatim>\<open>NewSession\<close>
  are not among the sources. The spec gives a session an id, an ordered sequence of
  values and a last-activity timestamp; the field names are those the session manager
  uses (\<^verbatim>\<open>ID\<close>, \<^verbatim>\<open>Values\<close>, \<^verbatim>\<open>ActivityDate\<close>). An instant of
  \<^verbatim>\<open>time.Time\<close> is an integer (nanoseconds); \<^verbatim>\<open>Before\<close> is \<open><\<close>.
\<close>

record 'v Session =
  ID :: string
  Values :: "'v list"
  ActivityDate :: int

text \<open>
  Modelled from the spec: \<^verbatim>\<open>NewSession\<close> gives a record with no values and the
  current time as activity stamp.
\<close>

definition NewSession :: "int \<Rightarrow> 'v Session" where
  "NewSession now = \<lparr>ID = [], Values = [], ActivityDate = now\<rparr>"

text \<open>\<^verbatim>\<open>SessionTimeout\<close> is a \<^verbatim>\<open>time.Duration\<close>, an \<^verbatim>\<open>int64\<close> of nanoseconds.\<close>

record SessionManager =
  SessionIDKey :: string
  Sessions :: slice
  SessionTimeout :: "64 word"

text \<open>
  The program state: session objects by address, backing arrays by address, and the
  manager struct.
\<close>

record 'v store =
  objs :: "'v Session list"
  arrs :: arrays
  manager :: SessionManager

definition set_Sessions :: "'v store \<Rightarrow> arrays \<times> slice \<Rightarrow> 'v store" where
  "set_Sessions st r = st\<lparr>arrs := fst r, manager := (manager st)\<lparr>Sessions := snd r\<rparr>\<rparr>"

text \<open>The cell \<^verbatim>\<open>val\<close> that iteration \<open>key\<close> of a range loop over header \<open>hs\<close> reads.\<close>

definition range_val :: "'v store \<Rightarrow> slice \<Rightarrow> nat \<Rightarrow> cell" where
  "range_val st hs key = arrs st ! sbase hs ! (soff hs + key)"

text \<open>
  \<^verbatim>\<open>for key, val := range hs { body }\<close> where the body may assign to the store:
  \<open>hs\<close> is the header copied when the loop starts, \<open>n\<close> the iterations left.
  Each iteration reads its cell from the store as it is then.
\<close>

fun range_loop :: "(nat \<Rightarrow> cell \<Rightarrow> 'v store \<Rightarrow> panic + 'v store) \<Rightarrow> slice \<Rightarrow> nat \<Rightarrow> nat \<Rightarrow> 'v store \<Rightarrow> panic + 'v store" where
  "range_loop body hs 0 key st = Inr st"
| "range_loop body hs (Suc n) key st =
     (case body key (range_val st hs key) st of
        Inl e \<Rightarrow> Inl e
      | Inr st' \<Rightarrow> range_loop body hs n (Suc key) st')"

fun GetSession_loop :: "'v store \<Rightarrow> slice \<Rightarrow> string \<Rightarrow> nat \<Rightarrow> nat \<Rightarrow> panic + cell" where
  "GetSession_loop st hs i 0 key = Inr None"
| "GetSession_loop st hs i (Suc n) key =
     (case range_val st hs key of
        None \<Rightarrow> Inl NilDeref
      | Some p \<Rightarrow>
          if ID (objs st ! p) = i then index (arrs st) (Sessions (manager st)) key
          else GetSession_loop st hs i n (Suc key))"

text \<open>
  \<^verbatim>\<open>GetSession\<close> assigns to nothing: the store it hands back is the one it was
  given.
\<close>

definition GetSession :: "'v store \<Rightarrow> string \<Rightarrow> panic + ('v store \<times> cell)" where
  "GetSession st i =
     (let hs = Sessions (manager st)
      in case GetSession_loop st hs i (slen hs) 0 of
           Inl e \<Rightarrow> Inl e
         | Inr c \<Rightarrow> Inr (st, c))"

fun Contains_loop :: "'v store \<Rightarrow> slice \<Rightarrow> string \<Rightarrow> nat \<Rightarrow> nat \<Rightarrow> panic + bool" where
  "Contains_loop st hs i 0 key = Inr False"
| "Contains_loop st hs i (Suc n) key =
     (case range_val st hs key of
        None \<Rightarrow> Inl NilDeref
      | Some p \<Rightarrow>
          if ID (objs st ! p) = i then Inr True
          else Contains_loop st hs i n (Suc key))"

definition Contains :: "'v store \<Rightarrow> string \<Rightarrow> panic + bool" where
  "Contains st i =
     (let hs = Sessions (manager st) in Contains_loop st hs i (slen hs) 0)"

text \<open>
  \<^verbatim>\<open>CreateSession\<close>: a new object at a fresh address, appended; the result is the
  new store and \<^verbatim>\<open>manager.Sessions[i]\<close> for the old length \<open>i\<close>.
\<close>

definition CreateSession :: "(nat \<Rightarrow> nat \<Rightarrow> nat) \<Rightarrow> int \<Rightarrow> 'v store \<Rightarrow> string \<Rightarrow> panic + ('v store \<times> cell)" where
  "CreateSession g now st i =
     (let n = slen (Sessions (manager st));
          p = length (objs st);
          st1 = st\<lparr>objs := objs st @ [(NewSession now)\<lparr>ID := i\<rparr>]\<rparr>;
          st2 = set_Sessions st1 (append_slice g (arrs st1) (Sessions (manager st1)) [Some p])
      in case index (arrs st2) (Sessions (manager st2)) n of
           Inl e \<Rightarrow> Inl e
         | Inr c \<Rightarrow> Inr (st2, c))"

text \<open>
  \<^verbatim>\<open>SetSession(session)\<close>: \<open>sp\<close> is the pointer passed in. Reading
  \<^verbatim>\<open>session.ID\<close> through a nil pointer panics.
\<close>

definition SetSession :: "(nat \<Rightarrow> nat \<Rightarrow> nat) \<Rightarrow> 'v store \<Rightarrow> cell \<Rightarrow> panic + 'v store" where
  "SetSession g st sp =
     (case sp of
        None \<Rightarrow> Inl NilDeref
      | Some p \<Rightarrow>
          (case GetSession st (ID (objs st ! p)) of
             Inl e \<Rightarrow> Inl e
           | Inr (st1, Some r) \<Rightarrow>
               Inr (st1\<lparr>objs := (objs st1)[r := (objs st1 ! r)\<lparr>Values := Values (objs st1 ! p)\<rparr>]\<rparr>)
           | Inr (st1, None) \<Rightarrow>
               Inr (set_Sessions st1 (append_slice g (arrs st1) (Sessions (manager st1)) [Some p]))))"

text \<open>The assignment \<^verbatim>\<open>DropSession\<close> makes at a matching \<open>key\<close>.\<close>

definition DropSession_remove :: "(nat \<Rightarrow> nat \<Rightarrow> nat) \<Rightarrow> 'v store \<Rightarrow> nat \<Rightarrow> panic + 'v store" where
  "DropSession_remove g st key =
     (let H = arrs st; s = Sessions (manager st) in
      if key > 1 then
        (case slice_upto H s key of
           Inl e \<Rightarrow> Inl e
         | Inr a \<Rightarrow>
             (case slice_from s (key + 1) of
                Inl e \<Rightarrow> Inl e
              | Inr b \<Rightarrow> Inr (set_Sessions st (append_slice g H a (elems H b)))))
      else if key = 1 then
        (case slice_from s 2 of
           Inl e \<Rightarrow> Inl e
         | Inr a \<Rightarrow>
             (case index H s 0 of
                Inl e \<Rightarrow> Inl e
              | Inr x \<Rightarrow> Inr (set_Sessions st (append_slice g H a [x]))))
      else
        (case slice_from s 1 of
           Inl e \<Rightarrow> Inl e
         | Inr a \<Rightarrow> Inr (set_Sessions st (H, a))))"

definition DropSession_body :: "(nat \<Rightarrow> nat \<Rightarrow> nat) \<Rightarrow> string \<Rightarrow> nat \<Rightarrow> cell \<Rightarrow> 'v store \<Rightarrow> panic + 'v store" where
  "DropSession_body g i key val st =
     (case val of
        None \<Rightarrow> Inl NilDeref
      | Some p \<Rightarrow> if ID (objs st ! p) = i then DropSession_remove g st key else Inr st)"

definition DropSession :: "(nat \<Rightarrow> nat \<Rightarrow> nat) \<Rightarrow> 'v store \<Rightarrow> string \<Rightarrow> panic + 'v store" where
  "DropSession g st i =
     (let hs = Sessions (manager st) in range_loop (DropSession_body g i) hs (slen hs) 0 st)"

text \<open>The assignment \<^verbatim>\<open>CleanSessions\<close> makes at an expired \<open>key\<close>.\<close>

definition CleanSessions_remove :: "(nat \<Rightarrow> nat \<Rightarrow> nat) \<Rightarrow> 'v store \<Rightarrow> nat \<Rightarrow> panic + 'v store" where
  "CleanSessions_remove g st key =
     (let H = arrs st; s = Sessions (manager st) in
      if key > 1 then
        (if slen s > 1 then
           (case slice_upto H s key of
              Inl e \<Rightarrow> Inl e
            | Inr a \<Rightarrow>
                (case slice_from s (key + 1) of
                   Inl e \<Rightarrow> Inl e
                 | Inr b \<Rightarrow> Inr (set_Sessions st (append_slice g H a (elems H b)))))
         else
           (case slice_upto H s key of
              Inl e \<Rightarrow> Inl e
            | Inr a \<Rightarrow> Inr (set_Sessions st (H, a))))
      else if key = 1 then
        (if slen s > 1 then
           (case slice_from s 2 of
              Inl e \<Rightarrow> Inl e
            | Inr a \<Rightarrow>
                (case index H s 0 of
                   Inl e \<Rightarrow> Inl e
                 | Inr x \<Rightarrow> Inr (set_Sessions st (append_slice g H a [x]))))
         else
           (case index H s 0 of
              Inl e \<Rightarrow> Inl e
            | Inr x \<Rightarrow>
                Inr (set_Sessions st (append_slice g (fst (empty_lit H)) (snd (empty_lit H)) [x]))))
      else
        (if slen s > 1 then
           (case slice_from s 1 of
              Inl e \<Rightarrow> Inl e
            | Inr a \<Rightarrow> Inr (set_Sessions st (H, a)))
         else Inr (set_Sessions st (empty_lit H))))"

definition CleanSessions_body :: "(nat \<Rightarrow> nat \<Rightarrow> nat) \<Rightarrow> int \<Rightarrow> nat \<Rightarrow> cell \<Rightarrow> 'v store \<Rightarrow> panic + 'v store" where
  "CleanSessions_body g expired key val st =
     (case val of
        None \<Rightarrow> Inl NilDeref
      | Some p \<Rightarrow>
          if ActivityDate (objs st ! p) < expired then CleanSessions_remove g st key else Inr st)"

text \<open>
  \<^verbatim>\<open>time.Now().Add(-manager.SessionTimeout)\<close> for the reading \<open>now\<close> of the clock.
  The negation is that of \<^verbatim>\<open>int64\<close>: it wraps at \<^verbatim>\<open>math.MinInt64\<close>, whose
  negation is itself. Adding the signed result moves the instant.
\<close>

definition expired_at :: "int \<Rightarrow> 64 word \<Rightarrow> int" where
  "expired_at now timeout = now + sint (- timeout)"

text \<open>\<open>now\<close> is the reading of \<^verbatim>\<open>time.Now()\<close>.\<close>

definition CleanSessions :: "(nat \<Rightarrow> nat \<Rightarrow> nat) \<Rightarrow> int \<Rightarrow> 'v store \<Rightarrow> panic + 'v store" where
  "CleanSessions g now st =
     (let expired = expired_at now (SessionTimeout (manager st));
          hs = Sessions (manager st)
      in range_loop (CleanSessions_body g expired) hs (slen hs) 0 st)"

section \<open>What a store shows\<close>

text \<open>The pointers in the collection, and the records they point to.\<close>

definition ptrs :: "'v store \<Rightarrow> cell list" where
  "ptrs st = elems (arrs st) (Sessions (manager st))"

definition deref :: "'v store \<Rightarrow> cell \<Rightarrow> 'v Session" where
  "deref st c = objs st ! the c"

definition view :: "'v store \<Rightarrow> 'v Session list" where
  "view st = map (deref st) (ptrs st)"

text \<open>A slice header that lies within its backing array.\<close>

definition within :: "arrays \<Rightarrow> slice \<Rightarrow> bool" where
  "within H s \<longleftrightarrow> sbase s < length H \<and> soff s + slen s \<le> length (H ! sbase s)"

text \<open>
  A well-formed store: the header of \<^verbatim>\<open>manager.Sessions\<close> lies within its backing
  array and every cell it shows points to a session object.
\<close>

definition points :: "'v store \<Rightarrow> cell \<Rightarrow> bool" where
  "points st c = (case c of None \<Rightarrow> False | Some p \<Rightarrow> p < length (objs st))"

definition wf :: "'v store \<Rightarrow> bool" where
  "wf st \<longleftrightarrow> within (arrs st) (Sessions (manager st)) \<and> list_all (points st) (ptrs st)"

text \<open>The invariant of the spec: at most one session per ID.\<close>

definition unique_ids :: "'v store \<Rightarrow> bool" where
  "unique_ids st \<longleftrightarrow> distinct (map ID (view st))"

text \<open>
  What both removal branches leave of a list when they act at index \<open>k\<close>: at index 1
  the first element is moved behind the rest, elsewhere the order is kept.
\<close>

definition gone :: "nat \<Rightarrow> 'a list \<Rightarrow> 'a list" where
  "gone k xs = (if k = 1 then drop 2 xs @ take 1 xs else take k xs @ drop (Suc k) xs)"

text \<open>A session whose last activity is before the instant \<open>expired\<close>.\<close>

definition stale :: "int \<Rightarrow> 'v Session \<Rightarrow> bool" where
  "stale expired s \<longleftrightarrow> ActivityDate s < expired"

text \<open>The first cell of the collection whose session has the given ID, or nil.\<close>

definition lookup :: "'v store \<Rightarrow> string \<Rightarrow> cell" where
  "lookup st i = (case find (\<lambda>c. ID (deref st c) = i) (ptrs st) of None \<Rightarrow> None | Some c \<Rightarrow> c)"

text \<open>The sessions a sweep at \<open>now\<close> is to keep, in the order of the collection.\<close>

definition fresh_sessions :: "int \<Rightarrow> 'v store \<Rightarrow> 'v Session list" where
  "fresh_sessions now st =
     filter (\<lambda>s. \<not> stale (expired_at now (SessionTimeout (manager st))) s) (view st)"

text \<open>The IDs a store shows after an operation, or the panic.\<close>

definition ids_of :: "panic + 'v store \<Rightarrow> panic + string list" where
  "ids_of r = (case r of Inl e \<Rightarrow> Inl e | Inr st \<Rightarrow> Inr (map ID (view st)))"

text \<open>Two sweeps in a row, at the same reading of the clock.\<close>

definition CleanSessions_twice :: "(nat \<Rightarrow> nat \<Rightarrow> nat) \<Rightarrow> int \<Rightarrow> 'v store \<Rightarrow> panic + 'v store" where
  "CleanSessions_twice g now st =
     (case CleanSessions g now st of Inl e \<Rightarrow> Inl e | Inr st1 \<Rightarrow> CleanSessions g now st1)"

text \<open>
  \<^verbatim>\<open>NewSessionManager\<close>: an empty collection of capacity 0 and a timeout of 15
  minutes; the cookie name is left empty.
\<close>

definition NewSessionManager :: "'v store" where
  "NewSessionManager =
     \<lparr>objs = [], arrs = [[]],
      manager = \<lparr>SessionIDKey = [], Sessions = \<lparr>sbase = 0, soff = 0, slen = 0\<rparr>,
                 SessionTimeout = 900000000000\<rparr>\<rparr>"

text \<open>One operation after another; a panic ends the run.\<close>

definition and_then :: "panic + 'a \<Rightarrow> ('a \<Rightarrow> panic + 'b) \<Rightarrow> panic + 'b" where
  "and_then r f = (case r of Inl e \<Rightarrow> Inl e | Inr x \<Rightarrow> f x)"

fun create_all :: "(nat \<Rightarrow> nat \<Rightarrow> nat) \<Rightarrow> int \<Rightarrow> 'v store \<Rightarrow> string list \<Rightarrow> panic + 'v store" where
  "create_all g now st [] = Inr st"
| "create_all g now st (i # is) =
     (case CreateSession g now st i of
        Inl e \<Rightarrow> Inl e
      | Inr r \<Rightarrow> create_all g now (fst r) is)"

subsection \<open>Concrete stores\<close>

text \<open>
  A growth policy that adds no spare capacity, for the concrete runs below. The
  collections these runs show are the same under every growth policy.
\<close>

definition no_spare :: "nat \<Rightarrow> nat \<Rightarrow> nat" where
  "no_spare c n = 0"

definition a_session :: "string \<Rightarrow> int \<Rightarrow> nat Session" where
  "a_session i t = \<lparr>ID = i, Values = [], ActivityDate = t\<rparr>"

text \<open>
  Three sessions \<open>a\<close>, \<open>b\<close>, \<open>c\<close> in a backing array of capacity 4 (what three
  appends to an empty slice leave), with a timeout of 10: at time 100 only \<open>b\<close>, last
  active at 0, is expired.
\<close>

definition store_abc :: "nat store" where
  "store_abc =
     \<lparr>objs = [a_session ''a'' 95, a_session ''b'' 0, a_session ''c'' 95],
      arrs = [[Some 0, Some 1, Some 2, None]],
      manager = \<lparr>SessionIDKey = ''sid'', Sessions = \<lparr>sbase = 0, soff = 0, slen = 3\<rparr>,
                 SessionTimeout = 10\<rparr>\<rparr>"

text \<open>
  The same store with a fourth session object, not in the collection: a session
  \<open>b\<close> with one value, last active at 50, as a caller of \<^verbatim>\<open>SetSession\<close> holds it.
\<close>

definition store_abc_in :: "nat store" where
  "store_abc_in =
     store_abc\<lparr>objs := objs store_abc @ [\<lparr>ID = ''b'', Values = [7], ActivityDate = 50\<rparr>]\<rparr>"

text \<open>Two sessions, both last active at 0, in a full backing array; timeout 10.\<close>

definition store_old2 :: "nat store" where
  "store_old2 =
     \<lparr>objs = [a_session ''a'' 0, a_session ''b'' 0],
      arrs = [[Some 0, Some 1]],
      manager = \<lparr>SessionIDKey = ''sid'', Sessions = \<lparr>sbase = 0, soff = 0, slen = 2\<rparr>,
                 SessionTimeout = 10\<rparr>\<rparr>"

text \<open>
  Four sessions in a full backing array, timeout 10. In \<open>store_mixed\<close> the first and
  the third are expired at time 100, in \<open>store_old4\<close> all four are.
\<close>

definition store_mixed :: "nat store" where
  "store_mixed =
     \<lparr>objs = [a_session ''a'' 0, a_session ''b'' 95, a_session ''c'' 0, a_session ''d'' 95],
      arrs = [[Some 0, Some 1, Some 2, Some 3]],
      manager = \<lparr>SessionIDKey = ''sid'', Sessions = \<lparr>sbase = 0, soff = 0, slen = 4\<rparr>,
                 SessionTimeout = 10\<rparr>\<rparr>"

definition store_old4 :: "nat store" where
  "store_old4 =
     \<lparr>objs = [a_session ''a'' 0, a_session ''b'' 0, a_session ''c'' 0, a_session ''d'' 0],
      arrs = [[Some 0, Some 1, Some 2, Some 3]],
      manager = \<lparr>SessionIDKey = ''sid'', Sessions = \<lparr>sbase = 0, soff = 0, slen = 4\<rparr>,
                 SessionTimeout = 10\<rparr>\<rparr>"

text \<open>Two sessions with the same ID in a full backing array.\<close>

definition store_dup :: "nat store" where
  "store_dup =
     \<lparr>objs = [a_session ''a'' 0, a_session ''a'' 5],
      arrs = [[Some 0, Some 1]],
      manager = \<lparr>SessionIDKey = ''sid'', Sessions = \<lparr>sbase = 0, soff = 0, slen = 2\<rparr>,
                 SessionTimeout = 10\<rparr>\<rparr>"

text \<open>
  The growth of a slice of pointers that one element at a time is appended to:
  capacities 1, 2, 4, 8.
\<close>

definition doubling :: "nat \<Rightarrow> nat \<Rightarrow> nat" where
  "doubling c n = (if c = 0 then 0 else 2 * c - n)"

text \<open>
  A run of the session manager from \<^verbatim>\<open>NewSessionManager\<close>: five sessions \<open>a\<close> to
  \<open>e\<close> are created at time 0, \<open>a\<close> and \<open>b\<close> are dropped, and one sweep follows at a
  time when the other three have expired.
\<close>

definition swept_run :: "panic + nat store" where
  "swept_run =
     and_then
       (and_then
          (and_then (create_all doubling 0 NewSessionManager [''a'', ''b'', ''c'', ''d'', ''e''])
             (\<lambda>st. DropSession doubling st ''a''))
          (\<lambda>st. DropSession doubling st ''b''))
       (CleanSessions doubling 1000000000000)"

text \<open>
  The store that run leaves: the collection is the session \<open>d\<close> followed by a nil
  cell of the spare capacity.
\<close>

definition store_d_nil :: "nat store" where
  "store_d_nil =
     \<lparr>objs = [a_session ''a'' 0, a_session ''b'' 0, a_session ''c'' 0, a_session ''d'' 0,
              a_session ''e'' 0],
      arrs = [[], [Some 0], [Some 0, Some 1], [Some 0, Some 1, Some 2, Some 3],
              [Some 0, Some 1, Some 2, Some 3, Some 4, Some 3, None, None]],
      manager = \<lparr>SessionIDKey = [], Sessions = \<lparr>sbase = 4, soff = 5, slen = 2\<rparr>,
                 SessionTimeout = 900000000000\<rparr>\<rparr>"

text \<open>
  One session last active at 0 under the timeout \<^verbatim>\<open>math.MinInt64\<close>, whose negation
  wraps.
\<close>

definition store_min_timeout :: "nat store" where
  "store_min_timeout =
     \<lparr>objs = [a_session ''a'' 0],
      arrs = [[Some 0]],
      manager = \<lparr>SessionIDKey = ''sid'', Sessions = \<lparr>sbase = 0, soff = 0, slen = 1\<rparr>,
                 SessionTimeout = 9223372036854775808\<rparr>\<rparr>"

section \<open>Action results (version 0.1)\<close>

text \<open>
  \<^verbatim>\<open>http.ResponseWriter\<close> is an interface; the response is modelled by the calls
  made on it, in order. \<^verbatim>\<open>Headers\<close> is a Go map: its entries are listed in
  the order in which this run of the \<^verbatim>\<open>range\<close> loop visits them. A byte is a
  \<open>char\<close>.
\<close>

datatype 'c call =
    HeaderSet string string
  | SetCookie 'c
  | WriteHeader int
  | Write string

record 'c ActionResult =
  StatusCode :: int
  Headers :: "(string \<times> string) list"
  Cookies :: "'c list"
  Data :: string

definition NewActionResult :: "string \<Rightarrow> 'c ActionResult" where
  "NewActionResult data = \<lparr>StatusCode = 200, Headers = [], Cookies = [], Data = data\<rparr>"

fun set_headers :: "(string \<times> string) list \<Rightarrow> 'c call list \<Rightarrow> 'c call list" where
  "set_headers [] response = response"
| "set_headers ((k, v) # hs) response = set_headers hs (response @ [HeaderSet k v])"

fun set_cookies :: "'c list \<Rightarrow> 'c call list \<Rightarrow> 'c call list" where
  "set_cookies [] response = response"
| "set_cookies (cookie # cs) response = set_cookies cs (response @ [SetCookie cookie])"

text \<open>The result is the returned error (\<open>None\<close> is \<^verbatim>\<open>nil\<close>) and the response.\<close>

definition Execute :: "'c ActionResult \<Rightarrow> 'c call list \<Rightarrow> string option \<times> 'c call list" where
  "Execute result response =
     (let r1 = set_headers (Headers result) response;
          r2 = set_cookies (Cookies result) r1
      in if int (length (Data result)) \<le> 0 then (Some ''No response from request'', r2)
         else (None, r2 @ [WriteHeader (StatusCode result), Write (Data result)]))"

text \<open>The calls that send a status code or a body.\<close>

fun sends :: "'c call \<Rightarrow> bool" where
  "sends (WriteHeader c) = True"
| "sends (Write d) = True"
| "sends (HeaderSet k v) = False"
| "sends (SetCookie c) = False"

section \<open>Action results (later version)\<close>

text \<open>
  The later \<^verbatim>\<open>Execute\<close> (the action-result file that returns errors from its
  constructors) has no check of \<^verbatim>\<open>Data\<close>: it sets headers and cookies, sends status
  and body, and returns what \<^verbatim>\<open>recover()\<close> gives, which is nil outside a deferred
  call.
\<close>

definition Execute_later :: "'c ActionResult \<Rightarrow> 'c call list \<Rightarrow> string option \<times> 'c call list" where
  "Execute_later result response =
     (let r1 = set_headers (Headers result) response;
          r2 = set_cookies (Cookies result) r1
      in (None, r2 @ [WriteHeader (StatusCode result), Write (Data result)]))"

text \<open>The body a response has received: the payloads of its \<^verbatim>\<open>Write\<close> calls.\<close>

fun body_of :: "'c call list \<Rightarrow> string" where
  "body_of [] = []"
| "body_of (Write d # cs) = d @ body_of cs"
| "body_of (c # cs) = body_of cs"

section \<open>The route manager and the controller pipeline\<close>

text \<open>
  \<^verbatim>\<open>routemanager.go\<close> and \<^verbatim>\<open>controller.go\<close> are not among the sources, only
  their tests are. The definitions of this section follow sections 3, 4.1, 4.2 and 7 of
  the spec.
\<close>

text \<open>
  Modelled from the spec: the errors of section 7, a routing refusal for a reserved
  path, no controller for the request, session injection without controller or without
  request, and a fault raised by a handler or hook.
\<close>

datatype fault =
    Refused_reserved_path
  | No_controller
  | Missing_controller
  | Missing_request
  | Handler_fault string

text \<open>
  Modelled from the spec: the inbound request data the dispatcher uses, the method,
  the request target (path, with an optional query string and fragment) and the
  cookies.
\<close>

record request =
  http_method :: string
  target :: string
  cookies :: "(string \<times> string) list"

text \<open>
  Modelled from the spec: step 1 of \<^verbatim>\<open>handle_request\<close>, first part. Query string
  and fragment are stripped before segmentation.
\<close>

definition path_of :: "string \<Rightarrow> string" where
  "path_of t = takeWhile (\<lambda>c. c \<noteq> CHR ''?'' \<and> c \<noteq> CHR ''#'') t"

text \<open>Modelled from the spec: step 1, the path is split at \<open>/\<close>.\<close>

fun split_slash :: "string \<Rightarrow> string \<Rightarrow> string list" where
  "split_slash acc [] = [rev acc]"
| "split_slash acc (c # cs) =
     (if c = CHR ''/'' then rev acc # split_slash [] cs else split_slash (c # acc) cs)"

text \<open>Modelled from the spec: step 1, empty leading and trailing components are skipped.\<close>

definition trim_empty :: "string list \<Rightarrow> string list" where
  "trim_empty xs = rev (dropWhile (\<lambda>s. s = []) (rev (dropWhile (\<lambda>s. s = []) xs)))"

text \<open>Modelled from the spec: step 1, the segments of a request target.\<close>

definition segments :: "string \<Rightarrow> string list" where
  "segments t = trim_empty (split_slash [] (path_of t))"

text \<open>
  Modelled from the spec: step 2 lets a segment case-match a reserved name, read here
  as equality up to the case of ASCII letters. This is the lower-case form of a byte.
\<close>

definition lower :: "char \<Rightarrow> char" where
  "lower c = (let n = (of_char c :: nat) in if 65 \<le> n \<and> n \<le> 90 then char_of (n + 32) else c)"

text \<open>Modelled from the spec: step 2, one name case-matches another.\<close>

definition case_matches :: "string \<Rightarrow> string \<Rightarrow> bool" where
  "case_matches a b \<longleftrightarrow> map lower a = map lower b"

text \<open>Modelled from the spec: the fixed set of reserved names.\<close>

definition reserved_names :: "string list" where
  "reserved_names = [''controllers'', ''views'', ''models'', ''emails'']"

text \<open>Modelled from the spec: step 2, a segment that case-matches a reserved name.\<close>

definition reserved :: "string \<Rightarrow> bool" where
  "reserved s \<longleftrightarrow> list_ex (case_matches s) reserved_names"

text \<open>
  Modelled from the spec: the controller instance of section 3. An action handler
  takes the parameters and returns a result, no result (nil), or raises a fault. A
  hook slot is \<open>None\<close> when no hook is registered. The before-hook is given by what it
  leaves in \<^verbatim>\<open>continue_pipeline\<close> (or its fault), the after-hook by whether it
  faults, the not-found hook by the result it returns, which may be empty. The session
  reference is the session's ID.
\<close>

record 'c controller =
  actions :: "((string \<times> string) \<times> (string list \<Rightarrow> fault + 'c ActionResult option)) list"
  before_hook :: "(fault + bool) option"
  after_hook :: "(fault + unit) option"
  error_hook :: "(fault \<Rightarrow> 'c ActionResult) option"
  not_found_hook :: "'c ActionResult option option"
  continue_pipeline :: bool
  session :: "string option"
  req :: "request option"

text \<open>
  Modelled from the spec: the built-in not-found result of section 4.2, status 404
  with the plain-text body \<open>Not Found\<close>.
\<close>

definition builtin_not_found :: "'c ActionResult" where
  "builtin_not_found = \<lparr>StatusCode = 404, Headers = [], Cookies = [], Data = ''Not Found''\<rparr>"

text \<open>
  Modelled from the spec: the built-in error result of section 4.2, status 500. The
  spec fixes no body for it.
\<close>

definition builtin_error :: "'c ActionResult" where
  "builtin_error = \<lparr>StatusCode = 500, Headers = [], Cookies = [], Data = ''Internal Server Error''\<rparr>"

text \<open>
  Modelled from the spec: the side exit \<open>NotFound\<close> of section 4.2. The hook's result
  is used; where no hook is registered or its result is empty, the built-in result.
\<close>

definition not_found_result :: "'c controller \<Rightarrow> 'c ActionResult" where
  "not_found_result c =
     (case not_found_hook c of
        None \<Rightarrow> builtin_not_found
      | Some None \<Rightarrow> builtin_not_found
      | Some (Some r) \<Rightarrow> r)"

text \<open>
  Modelled from the spec: the side exit \<open>Error\<close> of section 4.2. The error hook is
  invoked with the fault; without a hook, the built-in result.
\<close>

definition error_result :: "'c controller \<Rightarrow> fault \<Rightarrow> 'c ActionResult" where
  "error_result c f = (case error_hook c of None \<Rightarrow> builtin_error | Some h \<Rightarrow> h f)"

text \<open>
  Modelled from the spec: action lookup by HTTP method and action name. An action
  registered under the request's method or under the wildcard method applies; the
  spec does not say how the wildcard is written, the tests register it as the empty
  method. Scenario 1 of the spec and the route manager test run the action registered
  as \<open>Index\<close> for the segment \<open>index\<close>, so the name is matched up to the case of its
  letters.
\<close>

definition find_action :: "'c controller \<Rightarrow> string \<Rightarrow> string \<Rightarrow> (string list \<Rightarrow> fault + 'c ActionResult option) option" where
  "find_action c m a =
     map_option snd
       (find (\<lambda>e. (fst (fst e) = m \<or> fst (fst e) = []) \<and> case_matches (snd (fst e)) a) (actions c))"

text \<open>
  Modelled from the spec: the pipeline of section 4.2, \<open>Created\<close>, \<open>BeforeHook\<close>,
  \<open>Gated\<close>, \<open>ActionDispatch\<close>, \<open>AfterHook\<close>, \<open>Done\<close>. Without a before-hook the
  pipeline continues; a pipeline that the gate stops is treated as not found; a fault
  in a hook or in the handler goes to the error exit.
\<close>

definition run_pipeline :: "'c controller \<Rightarrow> string \<Rightarrow> string \<Rightarrow> string list \<Rightarrow> 'c ActionResult" where
  "run_pipeline c m a ps =
     (case (case before_hook c of None \<Rightarrow> Inr True | Some b \<Rightarrow> b) of
        Inl f \<Rightarrow> error_result c f
      | Inr cont \<Rightarrow>
          if \<not> cont then not_found_result c
          else (case find_action c m a of
                  None \<Rightarrow> not_found_result c
                | Some h \<Rightarrow>
                    (case h ps of
                       Inl f \<Rightarrow> error_result c f
                     | Inr None \<Rightarrow> not_found_result c
                     | Inr (Some r) \<Rightarrow>
                         (case after_hook c of
                            Some (Inl f) \<Rightarrow> error_result c f
                          | _ \<Rightarrow> r))))"

text \<open>
  Modelled from the spec: the route table (the latest registration of a name wins),
  the default controller name (empty when none is configured) and the session-id
  cookie name.
\<close>

record 'c route_manager =
  routes :: "(string \<times> (request \<Rightarrow> 'c controller)) list"
  default_controller :: string
  session_id_key :: string

text \<open>Modelled from the spec: \<^verbatim>\<open>register_controller\<close> inserts or overwrites an entry.\<close>

definition register_controller :: "'c route_manager \<Rightarrow> string \<Rightarrow> (request \<Rightarrow> 'c controller) \<Rightarrow> 'c route_manager" where
  "register_controller rm name mk = rm\<lparr>routes := (name, mk) # routes rm\<rparr>"

text \<open>
  Modelled from the spec: the factory of the default controller, when a default name
  is configured and registered.
\<close>

definition default_factory :: "'c route_manager \<Rightarrow> (request \<Rightarrow> 'c controller) option" where
  "default_factory rm =
     (if default_controller rm = [] then None else map_of (routes rm) (default_controller rm))"

text \<open>
  Modelled from the spec: step 3 of \<^verbatim>\<open>handle_request\<close>. Segment 0 names the
  controller when a factory is registered under it, and the remaining segments are the
  action and its parameters; otherwise the default controller, when configured and
  registered, gets all segments.
\<close>

definition resolve_controller :: "'c route_manager \<Rightarrow> string list \<Rightarrow> ((request \<Rightarrow> 'c controller) \<times> string list) option" where
  "resolve_controller rm segs =
     (case (case segs of [] \<Rightarrow> None | s # rest \<Rightarrow> map_option (\<lambda>mk. (mk, rest)) (map_of (routes rm) s)) of
        Some r \<Rightarrow> Some r
      | None \<Rightarrow> map_option (\<lambda>mk. (mk, segs)) (default_factory rm))"

text \<open>
  Modelled from the spec: the Error hook path of the route manager. A routing refusal
  happens before any controller is chosen; scenario 3 of the spec answers it with the
  error hook of the registered default controller, and without one only the built-in
  error result is left.
\<close>

definition error_path :: "'c route_manager \<Rightarrow> request \<Rightarrow> fault \<Rightarrow> 'c ActionResult" where
  "error_path rm rq f =
     (case default_factory rm of
        None \<Rightarrow> builtin_error
      | Some mk \<Rightarrow> error_result (mk rq) f)"

text \<open>
  Modelled from the spec: what the static file fallback reads, the file tree under the
  application root, by path segments, and the content headers inferred for a path.
\<close>

record site =
  files :: "string list \<Rightarrow> string option"
  content_headers :: "string list \<Rightarrow> (string \<times> string) list"

text \<open>
  Modelled from the spec: the static file fallback \<^verbatim>\<open>serve_file\<close>. Nothing is
  served for the root, for a path under a reserved name, or where no file exists;
  otherwise the file's bytes are the body of a result with status 200.
\<close>

definition serve_file :: "site \<Rightarrow> string list \<Rightarrow> 'c ActionResult option" where
  "serve_file fs segs =
     (case segs of
        [] \<Rightarrow> None
      | s # rest \<Rightarrow>
          if reserved s then None
          else map_option
                 (\<lambda>bytes. \<lparr>StatusCode = 200, Headers = content_headers fs segs, Cookies = [], Data = bytes\<rparr>)
                 (files fs segs))"

text \<open>
  Modelled from the spec: \<^verbatim>\<open>set_controller_sessions\<close>, step 5. It fails when the
  controller or its request is absent. How the session is found or created from the
  cookie is the parameter \<open>resolve\<close>: from the request and the session store it gives
  the new store, the session's ID and the cookies to set.
\<close>

definition set_controller_sessions :: "(request \<Rightarrow> 'st \<Rightarrow> 'st \<times> string \<times> 'c list) \<Rightarrow> 'st \<Rightarrow> 'c controller option \<Rightarrow> fault + ('st \<times> 'c controller \<times> 'c list)" where
  "set_controller_sessions resolve st ctrl =
     (case ctrl of
        None \<Rightarrow> Inl Missing_controller
      | Some c \<Rightarrow>
          (case req c of
             None \<Rightarrow> Inl Missing_request
           | Some rq \<Rightarrow>
               (case resolve rq st of
                  (st', sid, cs) \<Rightarrow> Inr (st', c\<lparr>session := Some sid\<rparr>, cs))))"

text \<open>
  Modelled from the spec: step 4 of \<^verbatim>\<open>handle_request\<close>. The first of the segments
  left for the controller is the action name, \<open>Index\<close> when there is none; the
  remaining ones are the parameters.
\<close>

definition action_of :: "string list \<Rightarrow> string" where
  "action_of rest = (case rest of [] \<Rightarrow> ''Index'' | a # _ \<Rightarrow> a)"

text \<open>
  Modelled from the spec: \<^verbatim>\<open>handle_request\<close>, steps 1 to 7. The result is the
  returned failure, the session store and the response. A failure of the session
  injection is returned and writes nothing to the response. The static file fallback
  is attempted where no controller and action path applies: where no controller
  resolves, and where the resolved controller has no action of the requested name. The
  route manager test and scenario 4 of the spec fix the second case: with a default
  controller configured, the request for a file under \<open>downloads\<close> is answered with the
  file's bytes.
\<close>

definition handle_request :: "site \<Rightarrow> 'c route_manager \<Rightarrow> (request \<Rightarrow> 'st \<Rightarrow> 'st \<times> string \<times> 'c list) \<Rightarrow> 'st \<Rightarrow> request \<Rightarrow> 'c call list \<Rightarrow> fault option \<times> 'st \<times> 'c call list" where
  "handle_request fs rm resolve st rq response =
     (let segs = segments (target rq) in
      if segs \<noteq> [] \<and> reserved (hd segs)
      then (None, st, snd (Execute_later (error_path rm rq Refused_reserved_path) response))
      else
        (case resolve_controller rm segs of
           None \<Rightarrow>
             (case serve_file fs segs of
                Some r \<Rightarrow> (None, st, snd (Execute_later r response))
              | None \<Rightarrow> (None, st, snd (Execute_later (error_path rm rq No_controller) response)))
         | Some (mk, rest) \<Rightarrow>
             (let action = action_of rest;
                  params = tl rest
              in case set_controller_sessions resolve st (Some (mk rq)) of
                   Inl f \<Rightarrow> (Some f, st, response)
                 | Inr (st', c, cs) \<Rightarrow>
                     (let r = (case (find_action c (http_method rq) action, serve_file fs segs) of
                                 (None, Some file) \<Rightarrow> file
                               | _ \<Rightarrow> run_pipeline c (http_method rq) action params)
                      in (None, st', snd (Execute_later (r\<lparr>Cookies := Cookies r @ cs\<rparr>) response))))))"

subsection \<open>The test application\<close>

text \<open>
  The controller of the route manager tests: its before-hook sets
  \<^verbatim>\<open>ContinuePipeline\<close>, \<open>Index\<close> returns the body \<open>Test Data\<close>, \<open>NotFound\<close>
  returns nil, the not-found hook returns \<open>Not Found\<close> and the error hook \<open>Error\<close>; all
  actions are registered under the empty method. (The action that unsets the
  not-found hook is left out.) It is registered as \<open>test\<close> and is the default.
\<close>

definition rmTestController :: "request \<Rightarrow> nat controller" where
  "rmTestController rq =
     \<lparr>actions = [(([], ''Index''), \<lambda>ps. Inr (Some (NewActionResult ''Test Data''))),
                 (([], ''NotFound''), \<lambda>ps. Inr None)],
      before_hook = Some (Inr True),
      after_hook = Some (Inr ()),
      error_hook = Some (\<lambda>f. NewActionResult ''Error''),
      not_found_hook = Some (Some (NewActionResult ''Not Found'')),
      continue_pipeline = False,
      session = None,
      req = Some rq\<rparr>"

definition test_manager :: "nat route_manager" where
  "test_manager =
     (register_controller \<lparr>routes = [], default_controller = [], session_id_key = ''sid''\<rparr>
        ''test'' rmTestController)\<lparr>default_controller := ''test''\<rparr>"

text \<open>A site with the view template of the tests on disk, and one without files.\<close>

definition views_site :: site where
  "views_site =
     \<lparr>files = (\<lambda>p. if p = [''views'', ''index.htm''] then Some ''Oh nos?'' else None),
      content_headers = (\<lambda>p. [])\<rparr>"

text \<open>The site of the download test: one file under \<open>downloads/apps\<close>.\<close>

definition downloads_site :: site where
  "downloads_site =
     \<lparr>files = (\<lambda>p. if p = [''downloads'', ''apps'', ''pretend.app'']
                       then Some ''Super cool application thingie here'' else None),
      content_headers = (\<lambda>p. [])\<rparr>"

definition empty_site :: site where
  "empty_site = \<lparr>files = (\<lambda>p. None), content_headers = (\<lambda>p. [])\<rparr>"

text \<open>A session step that finds the session \<open>s1\<close> and sets no cookie.\<close>

definition known_session :: "request \<Rightarrow> nat \<Rightarrow> nat \<times> string \<times> nat list" where
  "known_session rq st = (st, ''s1'', [])"

definition get_request :: "string \<Rightarrow> request" where
  "get_request t = \<lparr>http_method = ''GET'', target = t, cookies = []\<rparr>"

text \<open>
  A controller as the zero value \<^verbatim>\<open>&mvcapp.Controller{}\<close> of the tests gives it, with
  no request, and a manager whose only factory returns it.
\<close>

definition bare_controller :: "nat controller" where
  "bare_controller =
     \<lparr>actions = [], before_hook = None, after_hook = None, error_hook = None,
      not_found_hook = None, continue_pipeline = False, session = None, req = None\<rparr>"

definition bare_manager :: "nat route_manager" where
  "bare_manager =
     register_controller \<lparr>routes = [], default_controller = [], session_id_key = ''sid''\<rparr>
       ''bare'' (\<lambda>rq. bare_controller)"

section \<open>Slices and range loops: basic facts\<close>

lemma length_elems: "within H s \<Longrightarrow> length (elems H s) = slen s"
  by (auto simp: within_def elems_def)

lemma elems_nth: "within H s \<Longrightarrow> j < slen s \<Longrightarrow> elems H s ! j = H ! sbase s ! (soff s + j)"
  by (auto simp: within_def elems_def)

lemma store_at_length: "i + length xs \<le> length a \<Longrightarrow> length (store_at a i xs) = length a"
  by (auto simp: store_at_def)

lemma store_at_nth:
  "i + length xs \<le> length a \<Longrightarrow> j < length a \<Longrightarrow>
   store_at a i xs ! j = (if j < i then a ! j else if j < i + length xs then xs ! (j - i) else a ! j)"
  by (auto simp: store_at_def nth_append)

lemma store_at_elems:
  "i + length xs \<le> length a \<Longrightarrow> b \<le> i \<Longrightarrow>
   take (i - b + length xs) (drop b (store_at a i xs)) = take (i - b) (drop b a) @ xs"
  by (auto simp: store_at_def drop_take)

lemma nth_window:
  assumes "i \<le> j" "j < n" "b + n \<le> length A"
  shows "take (n - i) (drop (b + i) A) ! (j - i) = A ! (b + j)"
proof -
  have "b + i + (j - i) = b + j" using assms by simp
  moreover have "j - i < n - i" using assms by simp
  ultimately show ?thesis using assms by (simp add: add.assoc)
qed

lemma range_loop_idle:
  "(\<And>j. key \<le> j \<Longrightarrow> j < key + n \<Longrightarrow> body j (range_val st hs j) st = Inr st) \<Longrightarrow>
   range_loop body hs n key st = Inr st"
  by (induction n arbitrary: key) auto

lemma range_loop_skip:
  "(\<And>j. key \<le> j \<Longrightarrow> j < key + a \<Longrightarrow> body j (range_val st hs j) st = Inr st) \<Longrightarrow>
   range_loop body hs (a + b) key st = range_loop body hs b (key + a) st"
  by (induction a arbitrary: key) auto


lemma ptrs_nth:
  "within (arrs st) (Sessions (manager st)) \<Longrightarrow> j < slen (Sessions (manager st)) \<Longrightarrow>
   ptrs st ! j = range_val st (Sessions (manager st)) j"
  by (simp add: ptrs_def range_val_def elems_nth)

lemma length_ptrs:
  "within (arrs st) (Sessions (manager st)) \<Longrightarrow> length (ptrs st) = slen (Sessions (manager st))"
  by (simp add: ptrs_def length_elems)

lemma remove_high:
  fixes g :: "nat \<Rightarrow> nat \<Rightarrow> nat" and st :: "'v store"
  assumes w: "within (arrs st) (Sessions (manager st))"
    and k: "k < slen (Sessions (manager st))" and k2: "1 < k"
  defines "st' \<equiv> set_Sessions st
      (append_slice g (arrs st) \<lparr>sbase = sbase (Sessions (manager st)), soff = soff (Sessions (manager st)), slen = k\<rparr>
         (elems (arrs st) \<lparr>sbase = sbase (Sessions (manager st)), soff = soff (Sessions (manager st)) + (k + 1),
               slen = slen (Sessions (manager st)) - (k + 1)\<rparr>))"
  shows "DropSession_remove g st k = Inr st'"
    and "objs st' = objs st"
    and "within (arrs st') (Sessions (manager st'))"
    and "ptrs st' = take k (ptrs st) @ drop (Suc k) (ptrs st)"
    and "\<forall>j. k < j \<and> j < slen (Sessions (manager st)) \<longrightarrow>
           range_val st' (Sessions (manager st)) j \<in> set (drop (Suc k) (ptrs st))"
proof -
  define H where "H = arrs st"
  define s where "s = Sessions (manager st)"
  define A where "A = H ! sbase s"
  define ys where "ys = take (slen s - (k + 1)) (drop (soff s + (k + 1)) A)"
  have bnd: "sbase s < length H" "soff s + slen s \<le> length A"
    using w by (auto simp: within_def H_def s_def A_def)
  have lys: "length ys = slen s - (k + 1)"
    using bnd k by (auto simp: ys_def s_def)
  have fits: "k + length ys \<le> length A - soff s"
    using bnd k lys by (auto simp: s_def)
  have fits2: "soff s + k + length ys \<le> length A"
    using bnd k lys by (auto simp: s_def)
  have eb: "elems (arrs st) \<lparr>sbase = sbase (Sessions (manager st)), soff = soff (Sessions (manager st)) + (k + 1),
               slen = slen (Sessions (manager st)) - (k + 1)\<rparr> = ys"
    by (simp add: elems_def ys_def H_def s_def A_def)
  have st'_eq: "st' = set_Sessions st (H[sbase s := store_at A (soff s + k) ys],
      \<lparr>sbase = sbase s, soff = soff s, slen = k + length ys\<rparr>)"
    unfolding st'_def eb using fits
    by (simp add: append_slice_def cap_def H_def s_def A_def)
  show "DropSession_remove g st k = Inr st'"
    using k k2 bnd unfolding st'_def
    by (simp add: DropSession_remove_def Let_def slice_upto_def slice_from_def cap_def
        H_def[symmetric] s_def[symmetric] A_def[symmetric])
  show "objs st' = objs st"
    by (simp add: st'_eq set_Sessions_def)
  have A': "arrs st' ! sbase s = store_at A (soff s + k) ys"
    using bnd by (simp add: st'_eq set_Sessions_def)
  have lA': "length (store_at A (soff s + k) ys) = length A"
    using fits bnd k by (intro store_at_length) (auto simp: s_def)
  show "within (arrs st') (Sessions (manager st'))"
    using bnd k lys lA' by (auto simp: st'_eq set_Sessions_def within_def s_def)
  have p: "ptrs st = take (slen s) (drop (soff s) A)"
    by (simp add: ptrs_def elems_def H_def s_def A_def)
  have "ptrs st' = take (k + length ys) (drop (soff s) (store_at A (soff s + k) ys))"
    using bnd by (simp add: ptrs_def elems_def st'_eq set_Sessions_def)
  also have "\<dots> = take k (drop (soff s) A) @ ys"
    using store_at_elems[of "soff s + k" ys A "soff s"] fits2 by simp
  also have "\<dots> = take k (ptrs st) @ drop (Suc k) (ptrs st)"
    using k by (simp add: p ys_def s_def drop_take min_def add.commute)
  finally show "ptrs st' = take k (ptrs st) @ drop (Suc k) (ptrs st)" .
  have dys: "drop (Suc k) (ptrs st) = ys"
    by (simp add: p ys_def drop_take add.commute)
  show "\<forall>j. k < j \<and> j < slen (Sessions (manager st)) \<longrightarrow>
           range_val st' (Sessions (manager st)) j \<in> set (drop (Suc k) (ptrs st))"
  proof (intro allI impI)
    fix j assume j: "k < j \<and> j < slen (Sessions (manager st))"
    then have js: "k < j" "j < slen s" by (auto simp: s_def)
    have rv: "range_val st' (Sessions (manager st)) j = store_at A (soff s + k) ys ! (soff s + j)"
      using A' by (simp add: range_val_def s_def)
    show "range_val st' (Sessions (manager st)) j \<in> set (drop (Suc k) (ptrs st))"
    proof (cases "j < k + length ys")
      case True
      then have "store_at A (soff s + k) ys ! (soff s + j) = ys ! (j - k)"
        using js fits bnd by (subst store_at_nth) auto
      moreover have "ys ! (j - k) \<in> set ys"
        using True js by (intro nth_mem) auto
      ultimately show ?thesis by (simp add: rv dys)
    next
      case False
      then have jl: "j = slen s - 1" using js lys by auto
      have "store_at A (soff s + k) ys ! (soff s + j) = A ! (soff s + j)"
        using False js fits bnd by (subst store_at_nth) auto
      also have "\<dots> = ys ! (length ys - 1)"
      proof -
        have "soff s + (k + 1) + (length ys - 1) = soff s + j"
          using js lys jl by auto
        moreover have "length ys - 1 < slen s - (k + 1)"
          using js lys jl by auto
        ultimately show ?thesis
          using bnd js by (simp add: ys_def)
      qed
      finally have "store_at A (soff s + k) ys ! (soff s + j) \<in> set ys"
        using js lys by (auto intro!: nth_mem)
      then show ?thesis by (simp add: rv dys)
    qed
  qed
qed


lemma remove_second:
  fixes g :: "nat \<Rightarrow> nat \<Rightarrow> nat" and st :: "'v store"
  assumes w: "within (arrs st) (Sessions (manager st))"
    and k: "1 < slen (Sessions (manager st))"
  shows "\<exists>st'. DropSession_remove g st 1 = Inr st' \<and> objs st' = objs st \<and>
           within (arrs st') (Sessions (manager st')) \<and>
           ptrs st' = drop 2 (ptrs st) @ [ptrs st ! 0] \<and>
           (\<forall>j. 1 < j \<and> j < slen (Sessions (manager st)) \<longrightarrow>
              range_val st' (Sessions (manager st)) j \<in> set (drop 2 (ptrs st)))"
proof -
  define H where "H = arrs st"
  define s where "s = Sessions (manager st)"
  define A where "A = H ! sbase s"
  define a where "a = \<lparr>sbase = sbase s, soff = soff s + 2, slen = slen s - 2\<rparr>"
  define x where "x = A ! soff s"
  define st' where "st' = set_Sessions st (append_slice g H a [x])"
  have bnd: "sbase s < length H" "soff s + slen s \<le> length A" "1 < slen s"
    using w k by (auto simp: within_def H_def s_def A_def)
  have p: "ptrs st = take (slen s) (drop (soff s) A)"
    by (simp add: ptrs_def elems_def H_def s_def A_def)
  have p0: "ptrs st ! 0 = x"
    using bnd by (simp add: p x_def)
  have d2: "drop 2 (ptrs st) = take (slen s - 2) (drop (soff s + 2) A)"
    by (simp add: p drop_take add.commute)
  have ea: "elems H a = drop 2 (ptrs st)"
    by (simp add: d2 elems_def a_def A_def)
  have run: "DropSession_remove g st 1 = Inr st'"
    using bnd
    by (simp add: DropSession_remove_def Let_def slice_from_def index_def st'_def a_def x_def
        H_def s_def A_def)
  have o: "objs st' = objs st"
    by (simp add: st'_def set_Sessions_def append_slice_def)
  have inrange: "\<And>j. 1 < j \<Longrightarrow> j < slen s \<Longrightarrow> A ! (soff s + j) \<in> set (drop 2 (ptrs st))"
  proof -
    fix j assume j: "1 < j" "j < slen s"
    have "drop 2 (ptrs st) ! (j - 2) = A ! (soff s + j)"
      unfolding d2 using j bnd by (intro nth_window) auto
    moreover have "j - 2 < length (drop 2 (ptrs st))"
      unfolding d2 using j bnd by simp
    ultimately show "A ! (soff s + j) \<in> set (drop 2 (ptrs st))"
      by (metis nth_mem)
  qed
  show ?thesis
  proof (cases "slen a + length [x] \<le> cap H a")
    case True
    then have room: "soff s + slen s + 1 \<le> length A"
      using bnd by (auto simp: cap_def a_def A_def)
    have e: "Suc (Suc (soff s + slen s - 2)) = soff s + slen s"
      using bnd by simp
    have st'_eq: "st' = set_Sessions st (H[sbase s := store_at A (soff s + slen s) [x]],
        \<lparr>sbase = sbase s, soff = soff s + 2, slen = slen s - 2 + 1\<rparr>)"
      using True bnd by (simp add: st'_def append_slice_def a_def A_def e)
    have lA': "length (store_at A (soff s + slen s) [x]) = length A"
      using room by (intro store_at_length) auto
    have wi: "within (arrs st') (Sessions (manager st'))"
      using bnd room lA' by (auto simp: st'_eq set_Sessions_def within_def)
    have "ptrs st' = take (slen s - 2 + 1) (drop (soff s + 2) (store_at A (soff s + slen s) [x]))"
      using bnd by (simp add: ptrs_def elems_def st'_eq set_Sessions_def)
    also have "\<dots> = take (slen s - 2) (drop (soff s + 2) A) @ [x]"
      using store_at_elems[of "soff s + slen s" "[x]" A "soff s + 2"] room bnd by simp
    finally have pe: "ptrs st' = drop 2 (ptrs st) @ [ptrs st ! 0]"
      by (simp add: d2 p0)
    have rv: "\<forall>j. 1 < j \<and> j < slen (Sessions (manager st)) \<longrightarrow>
              range_val st' (Sessions (manager st)) j \<in> set (drop 2 (ptrs st))"
    proof (intro allI impI)
      fix j assume "1 < j \<and> j < slen (Sessions (manager st))"
      then have j: "1 < j" "j < slen s" by (auto simp: s_def)
      have "range_val st' (Sessions (manager st)) j = store_at A (soff s + slen s) [x] ! (soff s + j)"
        using bnd by (simp add: range_val_def st'_eq set_Sessions_def s_def)
      also have "\<dots> = A ! (soff s + j)"
        using j room by (subst store_at_nth) auto
      finally show "range_val st' (Sessions (manager st)) j \<in> set (drop 2 (ptrs st))"
        using inrange[OF j] by simp
    qed
    show ?thesis using run o wi pe rv by blast
  next
    case False
    define ys where "ys = elems H a"
    have st'_eq: "st' = set_Sessions st
        (H @ [ys @ [x] @ replicate (g (cap H a) (slen a + 1)) None],
        \<lparr>sbase = length H, soff = 0, slen = slen a + 1\<rparr>)"
      using False by (simp add: st'_def append_slice_def ys_def)
    have "length ys = slen s - 2"
      unfolding ys_def ea d2 using bnd by simp
    then have la: "length ys = slen a"
      by (simp add: a_def)
    have wi: "within (arrs st') (Sessions (manager st'))"
      using la by (auto simp: st'_eq set_Sessions_def within_def)
    have "ptrs st' = ys @ [x]"
      using la by (simp add: ptrs_def elems_def st'_eq set_Sessions_def)
    then have pe: "ptrs st' = drop 2 (ptrs st) @ [ptrs st ! 0]"
      by (simp only: ys_def ea p0)
    have rv: "\<forall>j. 1 < j \<and> j < slen (Sessions (manager st)) \<longrightarrow>
              range_val st' (Sessions (manager st)) j \<in> set (drop 2 (ptrs st))"
    proof (intro allI impI)
      fix j assume "1 < j \<and> j < slen (Sessions (manager st))"
      then have j: "1 < j" "j < slen s" by (auto simp: s_def)
      have "range_val st' (Sessions (manager st)) j = A ! (soff s + j)"
        using bnd by (simp add: range_val_def st'_eq set_Sessions_def s_def nth_append A_def)
      then show "range_val st' (Sessions (manager st)) j \<in> set (drop 2 (ptrs st))"
        using inrange[OF j] by simp
    qed
    show ?thesis using run o wi pe rv by blast
  qed
qed

lemma remove_first:
  fixes g :: "nat \<Rightarrow> nat \<Rightarrow> nat" and st :: "'v store"
  assumes w: "within (arrs st) (Sessions (manager st))"
    and k: "0 < slen (Sessions (manager st))"
  shows "\<exists>st'. DropSession_remove g st 0 = Inr st' \<and> objs st' = objs st \<and>
           within (arrs st') (Sessions (manager st')) \<and>
           ptrs st' = drop 1 (ptrs st) \<and>
           (\<forall>j. 0 < j \<and> j < slen (Sessions (manager st)) \<longrightarrow>
              range_val st' (Sessions (manager st)) j \<in> set (drop 1 (ptrs st)))"
proof -
  define s where "s = Sessions (manager st)"
  define A where "A = arrs st ! sbase s"
  define st' where "st' = set_Sessions st (arrs st, \<lparr>sbase = sbase s, soff = soff s + 1, slen = slen s - 1\<rparr>)"
  have bnd: "sbase s < length (arrs st)" "soff s + slen s \<le> length A" "0 < slen s"
    using w k by (auto simp: within_def s_def A_def)
  have p: "ptrs st = take (slen s) (drop (soff s) A)"
    by (simp add: ptrs_def elems_def s_def A_def)
  have d1: "drop 1 (ptrs st) = take (slen s - 1) (drop (soff s + 1) A)"
    by (simp add: p drop_take add.commute)
  have run: "DropSession_remove g st 0 = Inr st'"
    using bnd by (simp add: DropSession_remove_def Let_def slice_from_def st'_def s_def)
  have o: "objs st' = objs st"
    by (simp add: st'_def set_Sessions_def)
  have wi: "within (arrs st') (Sessions (manager st'))"
    using bnd by (auto simp: st'_def set_Sessions_def within_def A_def)
  have "ptrs st' = take (slen s - 1) (drop (soff s + 1) A)"
    by (simp add: ptrs_def elems_def st'_def set_Sessions_def A_def)
  then have pe: "ptrs st' = drop 1 (ptrs st)"
    by (simp only: d1)
  have rv: "\<forall>j. 0 < j \<and> j < slen (Sessions (manager st)) \<longrightarrow>
            range_val st' (Sessions (manager st)) j \<in> set (drop 1 (ptrs st))"
  proof (intro allI impI)
    fix j assume "0 < j \<and> j < slen (Sessions (manager st))"
    then have j: "0 < j" "j < slen s" by (auto simp: s_def)
    have "drop 1 (ptrs st) ! (j - 1) = A ! (soff s + j)"
      unfolding d1 using j bnd by (intro nth_window) auto
    moreover have "j - 1 < length (drop 1 (ptrs st))"
      unfolding d1 using j bnd by simp
    ultimately have "A ! (soff s + j) \<in> set (drop 1 (ptrs st))"
      by (metis nth_mem)
    moreover have "range_val st' (Sessions (manager st)) j = A ! (soff s + j)"
      by (simp add: range_val_def st'_def set_Sessions_def s_def A_def)
    ultimately show "range_val st' (Sessions (manager st)) j \<in> set (drop 1 (ptrs st))"
      by simp
  qed
  show ?thesis using run o wi pe rv by blast
qed


lemma DropSession_remove_ok:
  fixes g :: "nat \<Rightarrow> nat \<Rightarrow> nat" and st :: "'v store"
  assumes w: "within (arrs st) (Sessions (manager st))"
    and k: "k < slen (Sessions (manager st))"
  shows "\<exists>st'. DropSession_remove g st k = Inr st' \<and> objs st' = objs st \<and>
           within (arrs st') (Sessions (manager st')) \<and>
           ptrs st' = gone k (ptrs st) \<and>
           (\<forall>j. k < j \<and> j < slen (Sessions (manager st)) \<longrightarrow>
              range_val st' (Sessions (manager st)) j \<in> set (drop (Suc k) (ptrs st)))"
proof -
  consider "k = 0" | "k = 1" | "1 < k" by linarith
  then show ?thesis
  proof cases
    case 1
    then show ?thesis using remove_first[OF w, of g] k by (simp add: gone_def)
  next
    case 2
    have "take 1 (ptrs st) = [ptrs st ! 0]"
      using k 2 length_ptrs[OF w] by (simp add: take_Suc_conv_app_nth)
    then show ?thesis using remove_second[OF w, of g] k 2 by (simp add: gone_def numeral_2_eq_2)
  next
    case 3
    then show ?thesis using remove_high[OF w k 3, of g] by (simp add: gone_def)
  qed
qed

lemma CleanSessions_remove_ok:
  fixes g :: "nat \<Rightarrow> nat \<Rightarrow> nat" and st :: "'v store"
  assumes w: "within (arrs st) (Sessions (manager st))"
    and k: "k < slen (Sessions (manager st))"
  shows "\<exists>st'. CleanSessions_remove g st k = Inr st' \<and> objs st' = objs st \<and>
           within (arrs st') (Sessions (manager st')) \<and>
           ptrs st' = gone k (ptrs st) \<and>
           (\<forall>j. k < j \<and> j < slen (Sessions (manager st)) \<longrightarrow>
              range_val st' (Sessions (manager st)) j \<in> set (drop (Suc k) (ptrs st)))"
proof (cases "k = 0 \<and> slen (Sessions (manager st)) = 1")
  case True
  define st' where "st' = set_Sessions st (empty_lit (arrs st))"
  have "CleanSessions_remove g st k = Inr st'"
    using True by (simp add: CleanSessions_remove_def st'_def)
  moreover have "objs st' = objs st"
    by (simp add: st'_def set_Sessions_def)
  moreover have "within (arrs st') (Sessions (manager st'))"
    by (simp add: st'_def set_Sessions_def empty_lit_def within_def)
  moreover have "ptrs st' = gone k (ptrs st)"
    using True length_ptrs[OF w]
    by (simp add: st'_def set_Sessions_def empty_lit_def ptrs_def elems_def gone_def)
  ultimately show ?thesis using True by auto
next
  case False
  then have "CleanSessions_remove g st k = DropSession_remove g st k"
    using k by (auto simp: CleanSessions_remove_def DropSession_remove_def Let_def)
  then show ?thesis using DropSession_remove_ok[OF w k, of g] by simp
qed

lemma single_hit:
  fixes st st' :: "'v store"
  assumes body: "\<And>key c s. body key c s =
      (case c of None \<Rightarrow> Inl NilDeref | Some p \<Rightarrow> if hit (objs s ! p) then remove s key else Inr s)"
    and w: "wf st" and k: "k < length (ptrs st)"
    and hitk: "hit (deref st (ptrs st ! k))"
    and others: "\<forall>j<length (ptrs st). j \<noteq> k \<longrightarrow> \<not> hit (deref st (ptrs st ! j))"
    and rem: "remove st k = Inr st'" "objs st' = objs st"
      "\<forall>j. k < j \<and> j < slen (Sessions (manager st)) \<longrightarrow>
         range_val st' (Sessions (manager st)) j \<in> set (drop (Suc k) (ptrs st))"
  shows "range_loop body (Sessions (manager st)) (slen (Sessions (manager st))) 0 st = Inr st'"
proof -
  define hs where "hs = Sessions (manager st)"
  have wi: "within (arrs st) hs" and pts: "list_all (points st) (ptrs st)"
    using w by (auto simp: wf_def hs_def)
  have n: "length (ptrs st) = slen hs"
    using wi by (simp add: length_ptrs hs_def)
  have cellj: "\<And>j. j < slen hs \<Longrightarrow> \<exists>p. ptrs st ! j = Some p \<and> p < length (objs st)"
    using pts n by (auto simp: list_all_length points_def split: option.splits)
  have before: "\<And>j. j < k \<Longrightarrow> body j (range_val st hs j) st = Inr st"
  proof -
    fix j assume j: "j < k"
    then have jn: "j < slen hs" using k n by simp
    obtain p where p: "ptrs st ! j = Some p" using cellj[OF jn] by blast
    have "\<not> hit (deref st (ptrs st ! j))" using others j jn n by simp
    then show "body j (range_val st hs j) st = Inr st"
      using p ptrs_nth[OF wi[unfolded hs_def] jn[unfolded hs_def]]
      by (simp add: body deref_def hs_def)
  qed
  have at: "body k (range_val st hs k) st = Inr st'"
  proof -
    have kn: "k < slen hs" using k n by simp
    obtain p where p: "ptrs st ! k = Some p" using cellj[OF kn] by blast
    show ?thesis
      using p hitk rem(1) ptrs_nth[OF wi[unfolded hs_def] kn[unfolded hs_def]]
      by (simp add: body deref_def hs_def)
  qed
  have after: "\<And>j. Suc k \<le> j \<Longrightarrow> j < slen hs \<Longrightarrow> body j (range_val st' hs j) st' = Inr st'"
  proof -
    fix j assume j: "Suc k \<le> j" "j < slen hs"
    then have "range_val st' hs j \<in> set (drop (Suc k) (ptrs st))"
      using rem(3) by (simp add: hs_def)
    then obtain m where m: "m < length (ptrs st) - Suc k" "range_val st' hs j = ptrs st ! (Suc k + m)"
      by (auto simp: in_set_conv_nth)
    then have mn: "Suc k + m < slen hs" using n by simp
    obtain p where p: "ptrs st ! (Suc k + m) = Some p" using cellj[OF mn] by blast
    have "\<not> hit (deref st (ptrs st ! (Suc k + m)))" using others mn n by simp
    then show "body j (range_val st' hs j) st' = Inr st'"
      using p m(2) rem(2) by (simp add: body deref_def)
  qed
  have split: "slen hs = k + Suc (slen hs - Suc k)"
    using k n by simp
  have "range_loop body hs (slen hs) 0 st = range_loop body hs (k + Suc (slen hs - Suc k)) 0 st"
    using split by simp
  also have "\<dots> = range_loop body hs (Suc (slen hs - Suc k)) (0 + k) st"
    by (rule range_loop_skip) (simp add: before)
  also have "\<dots> = range_loop body hs (slen hs - Suc k) (Suc k) st'"
    using at by simp
  also have "\<dots> = Inr st'"
    using k n by (intro range_loop_idle after) auto
  finally show ?thesis by (simp add: hs_def)
qed

lemma no_hit:
  fixes st :: "'v store"
  assumes body: "\<And>key c s. body key c s =
      (case c of None \<Rightarrow> Inl NilDeref | Some p \<Rightarrow> if hit (objs s ! p) then remove s key else Inr s)"
    and w: "wf st"
    and none: "\<forall>j<length (ptrs st). \<not> hit (deref st (ptrs st ! j))"
  shows "range_loop body (Sessions (manager st)) (slen (Sessions (manager st))) 0 st = Inr st"
proof (rule range_loop_idle)
  fix j assume j: "0 \<le> j" "j < 0 + slen (Sessions (manager st))"
  have wi: "within (arrs st) (Sessions (manager st))" and pts: "list_all (points st) (ptrs st)"
    using w by (auto simp: wf_def)
  have n: "length (ptrs st) = slen (Sessions (manager st))"
    using wi by (simp add: length_ptrs)
  obtain p where p: "ptrs st ! j = Some p"
    using pts n j by (auto simp: list_all_length points_def split: option.splits)
  have "\<not> hit (deref st (ptrs st ! j))" using none j n by simp
  then show "body j (range_val st (Sessions (manager st)) j) st = Inr st"
    using p ptrs_nth[OF wi, of j] j by (simp add: body deref_def)
qed

section \<open>Removing from the collection inside a range loop\<close>

lemma filter_one_hit:
  assumes k: "k < length xs" and others: "\<forall>j<length xs. j \<noteq> k \<longrightarrow> \<not> P (xs ! j)"
    and hit: "P (xs ! k)"
  shows "filter (\<lambda>x. \<not> P x) xs = take k xs @ drop (Suc k) xs"
proof -
  have a: "\<forall>x \<in> set (take k xs). \<not> P x"
    using others k by (auto simp: in_set_conv_nth)
  have b: "\<forall>x \<in> set (drop (Suc k) xs). \<not> P x"
    using others k by (auto simp: in_set_conv_nth)
  have "xs = take k xs @ xs ! k # drop (Suc k) xs"
    using k by (rule id_take_nth_drop)
  then have "filter (\<lambda>x. \<not> P x) xs = filter (\<lambda>x. \<not> P x) (take k xs @ xs ! k # drop (Suc k) xs)"
    by simp
  also have "\<dots> = take k xs @ drop (Suc k) xs"
    using a b hit by (simp add: filter_id_conv)
  finally show ?thesis .
qed

lemma at_most_one_hit:
  "length (filter P xs) \<le> 1 \<Longrightarrow> j < length xs \<Longrightarrow> k < length xs \<Longrightarrow> P (xs ! j) \<Longrightarrow> P (xs ! k) \<Longrightarrow> j = k"
proof (induction xs arbitrary: j k)
  case Nil
  then show ?case by simp
next
  case (Cons x xs)
  show ?case
  proof (cases "P x")
    case True
    then have e: "filter P xs = []" using Cons.prems(1) by simp
    have "j = 0"
    proof (rule ccontr)
      assume "j \<noteq> 0"
      then obtain j' where "j = Suc j'" by (cases j) auto
      then have "xs ! j' \<in> set (filter P xs)" using Cons.prems by auto
      then show False using e by simp
    qed
    moreover have "k = 0"
    proof (rule ccontr)
      assume "k \<noteq> 0"
      then obtain k' where "k = Suc k'" by (cases k) auto
      then have "xs ! k' \<in> set (filter P xs)" using Cons.prems by auto
      then show False using e by simp
    qed
    ultimately show ?thesis by simp
  next
    case False
    then obtain j' k' where jk: "j = Suc j'" "k = Suc k'"
      using Cons.prems by (cases j; cases k) auto
    then have "j' = k'"
      using Cons.prems False by (intro Cons.IH) auto
    then show ?thesis using jk by simp
  qed
qed

lemma gone_map: "gone k (map f xs) = map f (gone k xs)"
  by (simp add: gone_def take_map drop_map)

lemma set_gone: "set (gone k xs) \<subseteq> set xs"
  by (auto simp: gone_def dest: in_set_takeD in_set_dropD)

lemma deref_same: "objs st' = objs st \<Longrightarrow> deref st' = deref st"
  by (simp add: deref_def fun_eq_iff)

lemma points_same:
  assumes "objs st' = objs st" shows "points st' = points st"
proof (rule ext)
  fix c show "points st' c = points st c"
    by (cases c) (simp_all add: points_def assms)
qed

lemma view_same_objs:
  assumes "objs st' = objs st" shows "view st' = map (deref st) (ptrs st')"
  by (simp add: view_def deref_same[OF assms])

lemma wf_gone:
  assumes "wf st" "objs st' = objs st" "within (arrs st') (Sessions (manager st'))"
    "ptrs st' = gone k (ptrs st)"
  shows "wf st'"
proof -
  have "list_all (points st) (ptrs st)" using assms(1) by (simp add: wf_def)
  then have "list_all (points st) (gone k (ptrs st))"
    using set_gone[of k "ptrs st"] by (auto simp: list_all_iff)
  then show ?thesis
    using assms(3) by (simp add: wf_def assms(4) points_same[OF assms(2)])
qed

text \<open>One matching cell: the loop leaves what the removal at that index leaves.\<close>

lemma DropSession_one:
  fixes st :: "'v store"
  assumes w: "wf st" and k: "k < length (view st)" and hit: "ID (view st ! k) = i"
    and others: "\<forall>j<length (view st). j \<noteq> k \<longrightarrow> ID (view st ! j) \<noteq> i"
  shows "\<exists>st'. DropSession g st i = Inr st' \<and> wf st' \<and> objs st' = objs st \<and>
           view st' = gone k (view st)"
proof -
  have wi: "within (arrs st) (Sessions (manager st))" using w by (simp add: wf_def)
  have kp: "k < slen (Sessions (manager st))" "k < length (ptrs st)"
    using k length_ptrs[OF wi] by (simp_all add: view_def)
  obtain st' where r: "DropSession_remove g st k = Inr st'" "objs st' = objs st"
      "within (arrs st') (Sessions (manager st'))" "ptrs st' = gone k (ptrs st)"
      "\<forall>j. k < j \<and> j < slen (Sessions (manager st)) \<longrightarrow>
         range_val st' (Sessions (manager st)) j \<in> set (drop (Suc k) (ptrs st))"
    using DropSession_remove_ok[OF wi kp(1), of g] by blast
  have body: "\<And>key c s. DropSession_body g i key c s =
      (case c of None \<Rightarrow> Inl NilDeref | Some p \<Rightarrow> if ID (objs s ! p) = i then DropSession_remove g s key else Inr s)"
    by (simp add: DropSession_body_def)
  have hitk: "ID (deref st (ptrs st ! k)) = i" using hit kp by (simp add: view_def)
  have oth: "\<forall>j<length (ptrs st). j \<noteq> k \<longrightarrow> ID (deref st (ptrs st ! j)) \<noteq> i"
    using others by (simp add: view_def)
  have "range_loop (DropSession_body g i) (Sessions (manager st)) (slen (Sessions (manager st))) 0 st = Inr st'"
    by (rule single_hit[where hit = "\<lambda>s. ID s = i" and remove = "DropSession_remove g", OF body w kp(2) hitk oth r(1) r(2) r(5)])
  then have "DropSession g st i = Inr st'" by (simp add: DropSession_def)
  moreover have "wf st'" using wf_gone[OF w r(2,3,4)] .
  moreover have "view st' = gone k (view st)"
  proof -
    have "view st' = map (deref st) (ptrs st')" by (rule view_same_objs[OF r(2)])
    also have "\<dots> = gone k (view st)" by (simp add: r(4) gone_map view_def)
    finally show ?thesis .
  qed
  ultimately show ?thesis using r(2) by blast
qed

lemma DropSession_none:
  fixes st :: "'v store"
  assumes w: "wf st" and none: "i \<notin> ID ` set (view st)"
  shows "DropSession g st i = Inr st"
proof -
  have body: "\<And>key c s. DropSession_body g i key c s =
      (case c of None \<Rightarrow> Inl NilDeref | Some p \<Rightarrow> if ID (objs s ! p) = i then DropSession_remove g s key else Inr s)"
    by (simp add: DropSession_body_def)
  have oth: "\<forall>j<length (ptrs st). ID (deref st (ptrs st ! j)) \<noteq> i"
  proof (intro allI impI)
    fix j assume "j < length (ptrs st)"
    then have "deref st (ptrs st ! j) \<in> set (view st)"
      by (simp add: view_def)
    then show "ID (deref st (ptrs st ! j)) \<noteq> i"
      using none by blast
  qed
  have "range_loop (DropSession_body g i) (Sessions (manager st)) (slen (Sessions (manager st))) 0 st = Inr st"
    by (rule no_hit[where hit = "\<lambda>s. ID s = i" and remove = "DropSession_remove g", OF body w oth])
  then show ?thesis by (simp add: DropSession_def)
qed


lemma gone_cases:
  assumes k: "k < length xs" and hit: "P (xs ! k)"
    and others: "\<forall>j<length xs. j \<noteq> k \<longrightarrow> \<not> P (xs ! j)"
  shows "gone k xs = (if 1 < length xs \<and> P (xs ! 1) then drop 2 xs @ take 1 xs
                      else filter (\<lambda>x. \<not> P x) xs)"
proof (cases "k = 1")
  case True
  then show ?thesis using k hit by (simp add: gone_def)
next
  case False
  then have "\<not> (1 < length xs \<and> P (xs ! 1))" using others by auto
  then show ?thesis
    using False filter_one_hit[OF k others hit] by (auto simp: gone_def)
qed

lemma distinct_gone: "distinct ys \<Longrightarrow> distinct (gone k ys)"
proof (cases "k = 1")
  case True
  assume d: "distinct ys"
  have "set (take 1 ys) \<inter> set (drop 2 ys) = {}"
    using d by (intro set_take_disj_set_drop_if_distinct) auto
  then show ?thesis
    using True d by (auto simp: gone_def)
next
  case False
  assume d: "distinct ys"
  have "set (take k ys) \<inter> set (drop (Suc k) ys) = {}"
    using d by (intro set_take_disj_set_drop_if_distinct) auto
  then show ?thesis
    using False d by (auto simp: gone_def)
qed

lemma unique_gone:
  assumes "unique_ids st" "view st' = gone k (view st)"
  shows "unique_ids st'"
  using assms distinct_gone[of "map ID (view st)" k]
  by (simp add: unique_ids_def gone_map)

lemma DropSession_spec:
  fixes st :: "'v store"
  assumes w: "wf st" and u: "unique_ids st"
  shows "\<exists>st'. DropSession g st i = Inr st' \<and> wf st' \<and> unique_ids st' \<and> objs st' = objs st \<and>
           view st' = (if 1 < length (view st) \<and> ID (view st ! 1) = i
                       then drop 2 (view st) @ take 1 (view st)
                       else filter (\<lambda>s. ID s \<noteq> i) (view st)) \<and>
           (i \<notin> ID ` set (view st) \<longrightarrow> st' = st)"
proof (cases "i \<in> ID ` set (view st)")
  case False
  have "\<not> (1 < length (view st) \<and> ID (view st ! 1) = i)"
    using False by (metis image_eqI nth_mem)
  moreover have "filter (\<lambda>s. ID s \<noteq> i) (view st) = view st"
    using False by (auto simp: filter_id_conv)
  ultimately show ?thesis
    using DropSession_none[OF w False, of g] w u by auto
next
  case True
  then obtain k where k: "k < length (view st)" "ID (view st ! k) = i"
    by (auto simp: in_set_conv_nth)
  have others: "\<forall>j<length (view st). j \<noteq> k \<longrightarrow> ID (view st ! j) \<noteq> i"
  proof (intro allI impI)
    fix j assume j: "j < length (view st)" "j \<noteq> k"
    have "map ID (view st) ! j \<noteq> map ID (view st) ! k"
      using u j k(1) by (simp add: unique_ids_def nth_eq_iff_index_eq del: nth_map)
    then show "ID (view st ! j) \<noteq> i" using j k by simp
  qed
  obtain st' where r: "DropSession g st i = Inr st'" "wf st'" "objs st' = objs st"
      "view st' = gone k (view st)"
    using DropSession_one[OF w k others, of g] by blast
  have "view st' = (if 1 < length (view st) \<and> ID (view st ! 1) = i
                       then drop 2 (view st) @ take 1 (view st)
                       else filter (\<lambda>s. ID s \<noteq> i) (view st))"
    using gone_cases[where P = "\<lambda>s. ID s = i", OF k others] r(4) by simp
  then show ?thesis
    using r unique_gone[OF u r(4)] True by simp
qed


lemma CleanSessions_body_eq:
  "CleanSessions_body g e key c s =
     (case c of None \<Rightarrow> Inl NilDeref
      | Some p \<Rightarrow> if stale e (objs s ! p) then CleanSessions_remove g s key else Inr s)"
  by (simp add: CleanSessions_body_def stale_def split: option.splits)

lemma CleanSessions_one:
  fixes st :: "'v store"
  assumes w: "wf st" and k: "k < length (view st)" and hit: "stale (expired_at now (SessionTimeout (manager st))) (view st ! k)"
    and others: "\<forall>j<length (view st). j \<noteq> k \<longrightarrow> \<not> stale (expired_at now (SessionTimeout (manager st))) (view st ! j)"
  shows "\<exists>st'. CleanSessions g now st = Inr st' \<and> wf st' \<and> objs st' = objs st \<and>
           view st' = gone k (view st)"
proof -
  define e where "e = expired_at now (SessionTimeout (manager st))"
  have wi: "within (arrs st) (Sessions (manager st))" using w by (simp add: wf_def)
  have kp: "k < slen (Sessions (manager st))" "k < length (ptrs st)"
    using k length_ptrs[OF wi] by (simp_all add: view_def)
  obtain st' where r: "CleanSessions_remove g st k = Inr st'" "objs st' = objs st"
      "within (arrs st') (Sessions (manager st'))" "ptrs st' = gone k (ptrs st)"
      "\<forall>j. k < j \<and> j < slen (Sessions (manager st)) \<longrightarrow>
         range_val st' (Sessions (manager st)) j \<in> set (drop (Suc k) (ptrs st))"
    using CleanSessions_remove_ok[OF wi kp(1), of g] by blast
  have hitk: "stale e (deref st (ptrs st ! k))" using hit kp by (simp add: view_def e_def)
  have oth: "\<forall>j<length (ptrs st). j \<noteq> k \<longrightarrow> \<not> stale e (deref st (ptrs st ! j))"
    using others by (simp add: view_def e_def)
  have "range_loop (CleanSessions_body g e) (Sessions (manager st)) (slen (Sessions (manager st))) 0 st = Inr st'"
    by (rule single_hit[where hit = "stale e" and remove = "CleanSessions_remove g",
          OF CleanSessions_body_eq w kp(2) hitk oth r(1) r(2) r(5)])
  then have "CleanSessions g now st = Inr st'" by (simp add: CleanSessions_def e_def)
  moreover have "wf st'" using wf_gone[OF w r(2,3,4)] .
  moreover have "view st' = gone k (view st)"
  proof -
    have "view st' = map (deref st) (ptrs st')" by (rule view_same_objs[OF r(2)])
    also have "\<dots> = gone k (view st)" by (simp add: r(4) gone_map view_def)
    finally show ?thesis .
  qed
  ultimately show ?thesis using r(2) by blast
qed

lemma CleanSessions_none:
  fixes st :: "'v store"
  assumes w: "wf st" and none: "filter (stale (expired_at now (SessionTimeout (manager st)))) (view st) = []"
  shows "CleanSessions g now st = Inr st"
proof -
  define e where "e = expired_at now (SessionTimeout (manager st))"
  have oth: "\<forall>j<length (ptrs st). \<not> stale e (deref st (ptrs st ! j))"
  proof (intro allI impI)
    fix j assume "j < length (ptrs st)"
    then have "deref st (ptrs st ! j) \<in> set (view st)"
      by (simp add: view_def)
    then show "\<not> stale e (deref st (ptrs st ! j))"
      using none by (auto simp: filter_empty_conv e_def)
  qed
  have "range_loop (CleanSessions_body g e) (Sessions (manager st)) (slen (Sessions (manager st))) 0 st = Inr st"
    by (rule no_hit[where hit = "stale e" and remove = "CleanSessions_remove g",
          OF CleanSessions_body_eq w oth])
  then show ?thesis by (simp add: CleanSessions_def e_def)
qed

lemma CleanSessions_spec:
  fixes st :: "'v store"
  assumes w: "wf st"
    and one: "length (filter (stale (expired_at now (SessionTimeout (manager st)))) (view st)) \<le> 1"
  shows "\<exists>st'. CleanSessions g now st = Inr st' \<and> wf st' \<and> objs st' = objs st \<and>
           view st' = (if 1 < length (view st) \<and> stale (expired_at now (SessionTimeout (manager st))) (view st ! 1)
                       then drop 2 (view st) @ take 1 (view st)
                       else filter (\<lambda>s. \<not> stale (expired_at now (SessionTimeout (manager st))) s) (view st)) \<and>
           (\<exists>k. view st' = gone k (view st) \<or> st' = st)"
proof (cases "filter (stale (expired_at now (SessionTimeout (manager st)))) (view st) = []")
  case True
  let ?e = "expired_at now (SessionTimeout (manager st))"
  have none: "\<forall>x \<in> set (view st). \<not> stale ?e x"
    using True by (auto simp: filter_empty_conv)
  then have "\<not> (1 < length (view st) \<and> stale ?e (view st ! 1))"
    by (metis nth_mem)
  moreover have "filter (\<lambda>s. \<not> stale ?e s) (view st) = view st"
    using none by (auto simp: filter_id_conv)
  ultimately show ?thesis
    using CleanSessions_none[OF w True, of g] w by auto
next
  case False
  let ?e = "expired_at now (SessionTimeout (manager st))"
  obtain x where "x \<in> set (view st)" "stale ?e x"
    using False by (auto simp: filter_empty_conv)
  then obtain k where k: "k < length (view st)" "stale ?e (view st ! k)"
    by (auto simp: in_set_conv_nth)
  have others: "\<forall>j<length (view st). j \<noteq> k \<longrightarrow> \<not> stale ?e (view st ! j)"
    using at_most_one_hit[OF one _ k(1) _ k(2)] by blast
  obtain st' where r: "CleanSessions g now st = Inr st'" "wf st'" "objs st' = objs st"
      "view st' = gone k (view st)"
    using CleanSessions_one[OF w k(1) k(2) others, of g] by blast
  have A: "view st' = (if 1 < length (view st) \<and> stale ?e (view st ! 1)
                       then drop 2 (view st) @ take 1 (view st)
                       else filter (\<lambda>s. \<not> stale ?e s) (view st))"
    using gone_cases[where P = "stale ?e", OF k others] r(4) by simp
  have B: "\<exists>k. view st' = gone k (view st) \<or> st' = st"
    using r(4) by blast
  show ?thesis
    using r(1,2,3) A B by blast
qed

section \<open>Lookup, creation and replacement\<close>

lemma wf_cell:
  assumes "wf st" "j < length (ptrs st)"
  shows "\<exists>p. ptrs st ! j = Some p \<and> p < length (objs st)"
  using assms by (auto simp: wf_def list_all_length points_def split: option.splits)

lemma wf_range_val:
  assumes "wf st" "j < length (ptrs st)"
  shows "range_val st (Sessions (manager st)) j = ptrs st ! j"
  using assms by (simp add: wf_def ptrs_nth length_ptrs)

lemma GetSession_loop_find:
  fixes st :: "'v store"
  assumes w: "wf st"
  shows "key + n = length (ptrs st) \<Longrightarrow>
         GetSession_loop st (Sessions (manager st)) i n key =
           Inr (case find (\<lambda>c. ID (deref st c) = i) (drop key (ptrs st)) of None \<Rightarrow> None | Some c \<Rightarrow> c)"
proof (induction n arbitrary: key)
  case 0
  then show ?case by simp
next
  case (Suc n)
  then have k: "key < length (ptrs st)" by simp
  obtain p where p: "ptrs st ! key = Some p" using wf_cell[OF w k] by blast
  have rv: "range_val st (Sessions (manager st)) key = Some p"
    using wf_range_val[OF w k] p by simp
  have d: "drop key (ptrs st) = Some p # drop (Suc key) (ptrs st)"
    using k p by (metis Cons_nth_drop_Suc)
  have ix: "index (arrs st) (Sessions (manager st)) key = Inr (Some p)"
    using k rv w by (simp add: index_def range_val_def wf_def length_ptrs)
  show ?case
  proof (cases "ID (objs st ! p) = i")
    case True
    then show ?thesis by (simp add: rv d ix deref_def)
  next
    case False
    have "GetSession_loop st (Sessions (manager st)) i n (Suc key) =
           Inr (case find (\<lambda>c. ID (deref st c) = i) (drop (Suc key) (ptrs st)) of None \<Rightarrow> None | Some c \<Rightarrow> c)"
      using Suc.prems by (intro Suc.IH) simp
    then show ?thesis using False by (simp add: rv d deref_def)
  qed
qed

lemma GetSession_lookup:
  fixes st :: "'v store"
  assumes w: "wf st"
  shows "GetSession st i = Inr (st, lookup st i)"
proof -
  have "length (ptrs st) = slen (Sessions (manager st))"
    using w by (simp add: wf_def length_ptrs)
  then show ?thesis
    using GetSession_loop_find[OF w, of 0 "slen (Sessions (manager st))" i]
    by (simp add: GetSession_def lookup_def)
qed

lemma lookup_None: "lookup st i = None \<Longrightarrow> wf st \<Longrightarrow> i \<notin> ID ` set (view st)"
proof -
  assume l: "lookup st i = None" and w: "wf st"
  have nn: "\<forall>c \<in> set (ptrs st). c \<noteq> None"
    using w by (fastforce simp: wf_def list_all_iff points_def split: option.splits)
  have "find (\<lambda>c. ID (deref st c) = i) (ptrs st) = None"
  proof (cases "find (\<lambda>c. ID (deref st c) = i) (ptrs st)")
    case None then show ?thesis .
  next
    case (Some c)
    then have "c \<in> set (ptrs st)" by (auto simp: find_Some_iff)
    moreover have "c = None" using l Some by (simp add: lookup_def)
    ultimately show ?thesis using nn by blast
  qed
  then show ?thesis by (auto simp: find_None_iff view_def)
qed

lemma lookup_Some:
  assumes l: "lookup st i = Some r"
  shows "\<exists>k<length (ptrs st). ptrs st ! k = Some r \<and> ID (deref st (Some r)) = i \<and>
           (\<forall>j<k. ID (deref st (ptrs st ! j)) \<noteq> i)"
proof -
  have "find (\<lambda>c. ID (deref st c) = i) (ptrs st) = Some (Some r)"
    using l by (auto simp: lookup_def split: option.splits)
  then show ?thesis by (auto simp: find_Some_iff)
qed

lemma Contains_loop_any:
  fixes st :: "'v store"
  assumes w: "wf st"
  shows "key + n = length (ptrs st) \<Longrightarrow>
         Contains_loop st (Sessions (manager st)) i n key =
           Inr (i \<in> ID ` deref st ` set (drop key (ptrs st)))"
proof (induction n arbitrary: key)
  case 0
  then show ?case by simp
next
  case (Suc n)
  then have k: "key < length (ptrs st)" by simp
  obtain p where p: "ptrs st ! key = Some p" using wf_cell[OF w k] by blast
  have rv: "range_val st (Sessions (manager st)) key = Some p"
    using wf_range_val[OF w k] p by simp
  have d: "drop key (ptrs st) = Some p # drop (Suc key) (ptrs st)"
    using k p by (metis Cons_nth_drop_Suc)
  show ?case
  proof (cases "ID (objs st ! p) = i")
    case True
    then show ?thesis by (auto simp: rv d deref_def)
  next
    case False
    have "Contains_loop st (Sessions (manager st)) i n (Suc key) =
           Inr (i \<in> ID ` deref st ` set (drop (Suc key) (ptrs st)))"
      using Suc.prems by (intro Suc.IH) simp
    then show ?thesis using False by (auto simp: rv d deref_def)
  qed
qed

lemma Contains_iff:
  fixes st :: "'v store"
  assumes w: "wf st"
  shows "Contains st i = Inr (i \<in> ID ` set (view st))"
proof -
  have "length (ptrs st) = slen (Sessions (manager st))"
    using w by (simp add: wf_def length_ptrs)
  then show ?thesis
    using Contains_loop_any[OF w, of 0 "slen (Sessions (manager st))" i]
    by (simp add: Contains_def view_def)
qed

lemma append_slice_ok:
  assumes w: "within H s"
  shows "within (fst (append_slice g H s xs)) (snd (append_slice g H s xs)) \<and>
         elems (fst (append_slice g H s xs)) (snd (append_slice g H s xs)) = elems H s @ xs"
proof (cases "slen s + length xs \<le> cap H s")
  case True
  have b: "sbase s < length H" "soff s + slen s \<le> length (H ! sbase s)"
    using w by (auto simp: within_def)
  have fit: "soff s + slen s + length xs \<le> length (H ! sbase s)"
    using True b by (simp add: cap_def)
  have l: "length (store_at (H ! sbase s) (soff s + slen s) xs) = length (H ! sbase s)"
    using fit by (intro store_at_length) simp
  have "take (slen s + length xs) (drop (soff s) (store_at (H ! sbase s) (soff s + slen s) xs))
        = take (slen s) (drop (soff s) (H ! sbase s)) @ xs"
    using store_at_elems[of "soff s + slen s" xs "H ! sbase s" "soff s"] fit by simp
  then show ?thesis
    using True b fit l by (simp add: append_slice_def within_def elems_def)
next
  case False
  have "length (elems H s) = slen s" using w by (rule length_elems)
  then show ?thesis
    using False by (simp add: append_slice_def within_def elems_def[of "H @ _"])
qed


lemma slen_append_slice: "slen (snd (append_slice g H s xs)) = slen s + length xs"
  by (simp add: append_slice_def)

lemma push_cell:
  fixes st :: "'v store" and g :: "nat \<Rightarrow> nat \<Rightarrow> nat" and c :: cell
  assumes w: "within (arrs st) (Sessions (manager st))"
  defines "st' \<equiv> set_Sessions st (append_slice g (arrs st) (Sessions (manager st)) [c])"
  shows "within (arrs st') (Sessions (manager st'))"
    and "ptrs st' = ptrs st @ [c]"
    and "objs st' = objs st"
    and "slen (Sessions (manager st')) = Suc (slen (Sessions (manager st)))"
  using append_slice_ok[OF w, of g "[c]"]
  by (simp_all add: st'_def set_Sessions_def ptrs_def slen_append_slice)

lemma CreateSession_spec:
  fixes st :: "'v store"
  assumes w: "wf st"
  shows "\<exists>st'. CreateSession g now st i = Inr (st', Some (length (objs st))) \<and> wf st' \<and>
           objs st' = objs st @ [\<lparr>ID = i, Values = [], ActivityDate = now\<rparr>] \<and>
           ptrs st' = ptrs st @ [Some (length (objs st))] \<and>
           view st' = view st @ [\<lparr>ID = i, Values = [], ActivityDate = now\<rparr>]"
proof -
  define new :: "'v Session" where "new = \<lparr>ID = i, Values = [], ActivityDate = now\<rparr>"
  define p where "p = length (objs st)"
  define st1 where "st1 = st\<lparr>objs := objs st @ [new]\<rparr>"
  define st2 where "st2 = set_Sessions st1 (append_slice g (arrs st1) (Sessions (manager st1)) [Some p])"
  have w1: "within (arrs st1) (Sessions (manager st1))"
    using w by (simp add: wf_def st1_def)
  have p1: "ptrs st1 = ptrs st" by (simp add: ptrs_def st1_def)
  have f: "within (arrs st2) (Sessions (manager st2))" "ptrs st2 = ptrs st @ [Some p]"
    "objs st2 = objs st @ [new]" "slen (Sessions (manager st2)) = Suc (slen (Sessions (manager st)))"
    using push_cell[OF w1, of g "Some p"] by (simp_all add: st2_def p1) (simp_all add: st1_def)
  have n: "length (ptrs st) = slen (Sessions (manager st))"
    using w by (simp add: wf_def length_ptrs)
  have "index (arrs st2) (Sessions (manager st2)) (slen (Sessions (manager st))) =
          Inr (ptrs st2 ! slen (Sessions (manager st)))"
    using f(1,4) ptrs_nth[OF f(1), of "slen (Sessions (manager st))"]
    by (simp add: index_def range_val_def)
  then have ix: "index (arrs st2) (Sessions (manager st2)) (slen (Sessions (manager st))) = Inr (Some p)"
    by (simp add: f(2) n[symmetric])
  have run: "CreateSession g now st i = Inr (st2, Some p)"
    using ix
    by (simp add: CreateSession_def Let_def NewSession_def st2_def[symmetric] st1_def[symmetric]
        new_def[symmetric] p_def[symmetric])
  have old: "\<forall>c \<in> set (ptrs st). deref st2 c = deref st c \<and> points st2 c"
    using w by (auto simp: wf_def list_all_iff points_def deref_def f(3) nth_append split: option.splits)
  have w2: "wf st2"
    using f(1) old by (simp add: wf_def f(2) list_all_iff) (simp add: points_def f(3) p_def)
  have v: "view st2 = view st @ [new]"
    using old by (simp add: view_def f(2)) (simp add: deref_def f(3) p_def)
  show ?thesis
    using run w2 v f(2,3) by (simp add: new_def p_def)
qed

lemma SetSession_spec:
  fixes st :: "'v store"
  assumes w: "wf st" and p: "p < length (objs st)"
  shows "\<exists>st'. SetSession g st (Some p) = Inr st' \<and> wf st' \<and>
           (case lookup st (ID (objs st ! p)) of
              Some r \<Rightarrow> st' = st\<lparr>objs := (objs st)[r := (objs st ! r)\<lparr>Values := Values (objs st ! p)\<rparr>]\<rparr>
            | None \<Rightarrow> objs st' = objs st \<and> ptrs st' = ptrs st @ [Some p])"
proof (cases "lookup st (ID (objs st ! p))")
  case None
  define st' where "st' = set_Sessions st (append_slice g (arrs st) (Sessions (manager st)) [Some p])"
  have wi: "within (arrs st) (Sessions (manager st))" using w by (simp add: wf_def)
  have f: "within (arrs st') (Sessions (manager st'))" "ptrs st' = ptrs st @ [Some p]"
    "objs st' = objs st"
    using push_cell[OF wi, of g "Some p"] by (simp_all add: st'_def)
  have "SetSession g st (Some p) = Inr st'"
    using None by (simp add: SetSession_def GetSession_lookup[OF w] st'_def)
  moreover have "wf st'"
    using w f p by (simp add: wf_def list_all_iff points_same[OF f(3)]) (simp add: points_def)
  ultimately show ?thesis using None f by simp
next
  case (Some r)
  define st' where "st' = st\<lparr>objs := (objs st)[r := (objs st ! r)\<lparr>Values := Values (objs st ! p)\<rparr>]\<rparr>"
  have "SetSession g st (Some p) = Inr st'"
    using Some by (simp add: SetSession_def GetSession_lookup[OF w] st'_def)
  moreover have "wf st'"
    using w by (simp add: wf_def st'_def ptrs_def points_def[abs_def])
  ultimately show ?thesis using Some by (simp add: st'_def)
qed

lemma set_gone_filter:
  assumes k: "k < length xs" and hit: "P (xs ! k)"
    and others: "\<forall>j<length xs. j \<noteq> k \<longrightarrow> \<not> P (xs ! j)"
  shows "set (gone k xs) = set (filter (\<lambda>x. \<not> P x) xs)"
  unfolding filter_one_hit[OF k others hit] by (auto simp: gone_def numeral_2_eq_2)

section \<open>The expiry sweep\<close>

text \<open>
  C1 as stated fails. In \<open>store_abc\<close> at time 100 only the second session \<open>b\<close> is
  expired. The sweep removes it through the branch for \<open>key = 1\<close>,
  \<^verbatim>\<open>append(manager.Sessions[2:], manager.Sessions[0])\<close>, which puts the first
  session behind the others: the survivors \<open>a\<close>, \<open>c\<close> come out as \<open>c\<close>, \<open>a\<close>.
\<close>

theorem CleanSessions_order_counterexample:
  "wf store_abc \<and>
   map ID (view store_abc) = [''a'', ''b'', ''c''] \<and>
   map ID (fresh_sessions 100 store_abc) = [''a'', ''c''] \<and>
   ids_of (CleanSessions no_spare 100 store_abc) = Inr [''c'', ''a''] \<and>
   ids_of (CleanSessions no_spare 100 store_abc) \<noteq> Inr (map ID (fresh_sessions 100 store_abc))"
  by code_simp

text \<open>
  C1, amended. A session is expired at a sweep when its last activity is before
  \<^verbatim>\<open>time.Now().Add(-SessionTimeout)\<close>, computed as the code computes it. For every
  well-formed store in which at most one session is expired at the time of the sweep,
  \<^verbatim>\<open>CleanSessions\<close> returns without a panic, changes no session object, removes
  exactly the expired session and keeps every other one. The
  survivors keep their relative order, except when the expired session is the second
  of the collection: then the first session is moved behind all others. (Stores with
  several expired sessions are not covered by this statement.)
\<close>

theorem CleanSessions_single_expired:
  fixes st :: "'v store"
  assumes "wf st"
    and "length (filter (stale (expired_at now (SessionTimeout (manager st)))) (view st)) \<le> 1"
  shows "\<exists>st'. CleanSessions g now st = Inr st' \<and> wf st' \<and> objs st' = objs st \<and>
           set (view st') = set (fresh_sessions now st) \<and>
           view st' = (if 1 < length (view st) \<and> stale (expired_at now (SessionTimeout (manager st))) (view st ! 1)
                       then drop 2 (view st) @ take 1 (view st)
                       else fresh_sessions now st)"
proof -
  let ?e = "expired_at now (SessionTimeout (manager st))"
  obtain st' where r: "CleanSessions g now st = Inr st'" "wf st'" "objs st' = objs st"
    "view st' = (if 1 < length (view st) \<and> stale ?e (view st ! 1)
                 then drop 2 (view st) @ take 1 (view st)
                 else filter (\<lambda>s. \<not> stale ?e s) (view st))"
    using CleanSessions_spec[OF assms, of g] by blast
  have "set (view st') = set (filter (\<lambda>s. \<not> stale ?e s) (view st))"
  proof (cases "1 < length (view st) \<and> stale ?e (view st ! 1)")
    case True
    have others: "\<forall>j<length (view st). j \<noteq> 1 \<longrightarrow> \<not> stale ?e (view st ! j)"
      using at_most_one_hit[OF assms(2), of _ 1] True by blast
    have "view st' = gone 1 (view st)" using r(4) True by (simp add: gone_def)
    then show ?thesis
      using set_gone_filter[where P = "stale ?e", of 1 "view st"] True others by simp
  next
    case False
    then show ?thesis using r(4) by auto
  qed
  then show ?thesis using r by (auto simp: fresh_sessions_def)
qed

text \<open>The amended C1 at \<open>store_abc\<close>, time 100.\<close>

theorem CleanSessions_single_expired_witness:
  "wf store_abc \<and>
   length (filter (stale (expired_at 100 (SessionTimeout (manager store_abc)))) (view store_abc)) \<le> 1 \<and>
   (\<exists>st'. CleanSessions no_spare 100 store_abc = Inr st' \<and> wf st' \<and> objs st' = objs store_abc \<and>
           set (view st') = set (fresh_sessions 100 store_abc) \<and>
           view st' = (if 1 < length (view store_abc) \<and>
                           stale (expired_at 100 (SessionTimeout (manager store_abc))) (view store_abc ! 1)
                       then drop 2 (view store_abc) @ take 1 (view store_abc)
                       else fresh_sessions 100 store_abc))"
proof -
  have h1: "wf store_abc" by code_simp
  have h2: "length (filter (stale (expired_at 100 (SessionTimeout (manager store_abc)))) (view store_abc)) \<le> 1"
    by code_simp
  show ?thesis
    by (intro conjI h1 h2 CleanSessions_single_expired[OF h1 h2])
qed

text \<open>
  The instant of expiry follows the code at the timeout \<^verbatim>\<open>math.MinInt64\<close>: the
  negation wraps, the instant lies in the far past, and a session last active at 0 is
  kept at time 100.
\<close>

lemma CleanSessions_min_timeout:
  "expired_at 100 9223372036854775808 = 100 - 9223372036854775808 \<and>
   wf store_min_timeout \<and>
   map ActivityDate (view store_min_timeout) = [0] \<and>
   ids_of (CleanSessions no_spare 100 store_min_timeout) = Inr [''a'']"
  by code_simp

text \<open>
  C5 on the code. In \<open>store_old2\<close> both sessions are expired at time 100. The first
  sweep drops \<open>a\<close> at \<open>key = 0\<close> by \<^verbatim>\<open>manager.Sessions[1:]\<close>; at \<open>key = 1\<close> the
  collection has length 1, so the branch \<^verbatim>\<open>append([]*Session{}, manager.Sessions[0])\<close>
  keeps its only session, the expired \<open>b\<close>. A second sweep at the same time then
  removes \<open>b\<close>: two sweeps leave the empty collection, one sweep leaves \<open>b\<close>.
\<close>

theorem CleanSessions_twice_removes_more:
  "wf store_old2 \<and>
   map ID (view store_old2) = [''a'', ''b''] \<and>
   map ID (fresh_sessions 100 store_old2) = [] \<and>
   ids_of (CleanSessions no_spare 100 store_old2) = Inr [''b''] \<and>
   ids_of (CleanSessions_twice no_spare 100 store_old2) = Inr []"
  by code_simp

text \<open>
  The runs above and two more, for every growth policy. In \<open>store_mixed\<close> the sweep
  drops the expired \<open>a\<close> at \<open>key = 0\<close>; at \<open>key = 2\<close> it reads the expired \<open>c\<close> from
  the original header and removes index 2 of the collection as it is by then, which is
  the active \<open>d\<close>: the expired \<open>c\<close> stays and the active \<open>d\<close> is gone. In
  \<open>store_old4\<close> the third removal slices beyond the length of the shrunken collection
  and the sweep panics.
\<close>

lemmas run_defs = ids_of_def CleanSessions_twice_def CleanSessions_def DropSession_def
  CleanSessions_body_def DropSession_body_def CleanSessions_remove_def DropSession_remove_def
  range_val_def set_Sessions_def append_slice_def empty_lit_def slice_from_def slice_upto_def
  index_def cap_def elems_def store_at_def view_def ptrs_def deref_def fresh_sessions_def stale_def expired_at_def
  a_session_def store_abc_def store_old2_def store_mixed_def store_old4_def store_dup_def

lemma CleanSessions_rotates_any_growth:
  "ids_of (CleanSessions g 100 store_abc) = Inr [''c'', ''a'']"
  by (simp add: run_defs eval_nat_numeral)

lemma CleanSessions_keeps_expired_any_growth:
  "ids_of (CleanSessions g 100 store_old2) = Inr [''b'']"
  by (simp add: run_defs eval_nat_numeral)

lemma CleanSessions_twice_any_growth:
  "ids_of (CleanSessions_twice g 100 store_old2) = Inr []"
  by (simp add: run_defs eval_nat_numeral)

lemma CleanSessions_removes_active:
  "map ID (fresh_sessions 100 store_mixed) = [''b'', ''d''] \<and>
   ids_of (CleanSessions g 100 store_mixed) = Inr [''b'', ''c'']"
  by (simp add: run_defs eval_nat_numeral)

lemma CleanSessions_panics:
  "CleanSessions g 100 store_old4 = Inl SliceBounds"
  by (simp add: run_defs eval_nat_numeral)

lemma DropSession_rotates_any_growth:
  "ids_of (DropSession g store_abc ''b'') = Inr [''c'', ''a'']"
  by (simp add: run_defs eval_nat_numeral)

section \<open>Dropping one session\<close>

text \<open>
  C2 as stated fails. Dropping \<open>b\<close>, the second of three sessions, goes through the
  branch for \<open>key = 1\<close>, \<^verbatim>\<open>append(manager.Sessions[2:], manager.Sessions[0])\<close>:
  the remaining sessions \<open>a\<close>, \<open>c\<close> come out as \<open>c\<close>, \<open>a\<close>.
\<close>

theorem DropSession_order_counterexample:
  "wf store_abc \<and> unique_ids store_abc \<and>
   map ID (view store_abc) = [''a'', ''b'', ''c''] \<and>
   ids_of (DropSession no_spare store_abc ''b'') = Inr [''c'', ''a''] \<and>
   ids_of (DropSession no_spare store_abc ''b'') \<noteq>
     Inr (map ID (filter (\<lambda>s. ID s \<noteq> ''b'') (view store_abc)))"
  by code_simp

text \<open>
  C2, amended. For every well-formed store with at most one session per ID,
  \<^verbatim>\<open>DropSession(id)\<close> returns without a panic, changes no session object, removes
  the record whose ID is \<open>id\<close> and keeps every other record; when no record matches,
  the store is unchanged. The remaining records keep their relative order, except when
  the matching record is the second of the collection: then the first record is moved
  behind all others.
\<close>

theorem DropSession_unique_match:
  fixes st :: "'v store"
  assumes "wf st" and "unique_ids st"
  shows "\<exists>st'. DropSession g st i = Inr st' \<and> wf st' \<and> objs st' = objs st \<and>
           set (view st') = {s \<in> set (view st). ID s \<noteq> i} \<and>
           view st' = (if 1 < length (view st) \<and> ID (view st ! 1) = i
                       then drop 2 (view st) @ take 1 (view st)
                       else filter (\<lambda>s. ID s \<noteq> i) (view st)) \<and>
           (i \<in> ID ` set (view st) \<or> st' = st)"
proof -
  obtain st' where r: "DropSession g st i = Inr st'" "wf st'" "objs st' = objs st"
    "view st' = (if 1 < length (view st) \<and> ID (view st ! 1) = i
                 then drop 2 (view st) @ take 1 (view st)
                 else filter (\<lambda>s. ID s \<noteq> i) (view st))"
    "i \<notin> ID ` set (view st) \<longrightarrow> st' = st"
    using DropSession_spec[OF assms, of g i] by blast
  have "set (view st') = set (filter (\<lambda>s. ID s \<noteq> i) (view st))"
  proof (cases "1 < length (view st) \<and> ID (view st ! 1) = i")
    case True
    have others: "\<forall>j<length (view st). j \<noteq> 1 \<longrightarrow> ID (view st ! j) \<noteq> i"
    proof (intro allI impI)
      fix j assume j: "j < length (view st)" "j \<noteq> 1"
      have "map ID (view st) ! j \<noteq> map ID (view st) ! 1"
        using assms(2) j True by (simp add: unique_ids_def nth_eq_iff_index_eq del: nth_map)
      then show "ID (view st ! j) \<noteq> i" using j True by simp
    qed
    have "view st' = gone 1 (view st)" using r(4) True by (simp add: gone_def)
    then show ?thesis
      using set_gone_filter[where P = "\<lambda>s. ID s = i", of 1 "view st"] True others by simp
  next
    case False
    then show ?thesis using r(4) by auto
  qed
  then show ?thesis using r by auto
qed

text \<open>
  The loop goes on after a match, so the invariant matters. With two records of the
  same ID, the first is dropped at \<open>key = 0\<close>; at \<open>key = 1\<close> the second matches
  and \<^verbatim>\<open>manager.Sessions[2:]\<close> slices beyond the one record left: a panic.
\<close>

lemma DropSession_duplicate_panics:
  "wf store_dup \<and> \<not> unique_ids store_dup \<and> DropSession g store_dup ''a'' = Inl SliceBounds"
  by (simp add: run_defs wf_def within_def points_def unique_ids_def eval_nat_numeral)

text \<open>The amended C2 at \<open>store_abc\<close>, dropping \<open>b\<close>.\<close>

theorem DropSession_unique_match_witness:
  "wf store_abc \<and> unique_ids store_abc \<and>
   (\<exists>st'. DropSession no_spare store_abc ''b'' = Inr st' \<and> wf st' \<and> objs st' = objs store_abc \<and>
           set (view st') = {s \<in> set (view store_abc). ID s \<noteq> ''b''} \<and>
           view st' = (if 1 < length (view store_abc) \<and> ID (view store_abc ! 1) = ''b''
                       then drop 2 (view store_abc) @ take 1 (view store_abc)
                       else filter (\<lambda>s. ID s \<noteq> ''b'') (view store_abc)) \<and>
           (''b'' \<in> ID ` set (view store_abc) \<or> st' = store_abc))"
proof -
  have h1: "wf store_abc" by code_simp
  have h2: "unique_ids store_abc" by code_simp
  show ?thesis
    by (intro conjI h1 h2 DropSession_unique_match[OF h1 h2])
qed

lemma SetSession_view:
  fixes st :: "'v store"
  assumes w: "wf st" and p: "p < length (objs st)"
  shows "\<exists>st'. SetSession g st (Some p) = Inr st' \<and> wf st' \<and>
           (case lookup st (ID (objs st ! p)) of
              Some r \<Rightarrow>
                st' = st\<lparr>objs := (objs st)[r := (objs st ! r)\<lparr>Values := Values (objs st ! p)\<rparr>]\<rparr> \<and>
                r < length (objs st) \<and>
                map ID (view st') = map ID (view st) \<and>
                map ActivityDate (view st') = map ActivityDate (view st)
            | None \<Rightarrow>
                objs st' = objs st \<and> ptrs st' = ptrs st @ [Some p] \<and>
                view st' = view st @ [objs st ! p] \<and>
                ID (objs st ! p) \<notin> ID ` set (view st))"
proof -
  obtain st' where r: "SetSession g st (Some p) = Inr st'" "wf st'"
    "case lookup st (ID (objs st ! p)) of
       Some r \<Rightarrow> st' = st\<lparr>objs := (objs st)[r := (objs st ! r)\<lparr>Values := Values (objs st ! p)\<rparr>]\<rparr>
     | None \<Rightarrow> objs st' = objs st \<and> ptrs st' = ptrs st @ [Some p]"
    using SetSession_spec[OF w p, of g] by blast
  show ?thesis
  proof (cases "lookup st (ID (objs st ! p))")
    case None
    then have f: "objs st' = objs st" "ptrs st' = ptrs st @ [Some p]" using r(3) by simp_all
    have "view st' = view st @ [objs st ! p]"
      by (simp add: view_def f(2) deref_same[OF f(1)]) (simp add: deref_def)
    moreover have "ID (objs st ! p) \<notin> ID ` set (view st)"
      using lookup_None[OF None w] .
    ultimately show ?thesis using r(1,2) f None by simp
  next
    case (Some q)
    then have e: "st' = st\<lparr>objs := (objs st)[q := (objs st ! q)\<lparr>Values := Values (objs st ! p)\<rparr>]\<rparr>"
      using r(3) by simp
    obtain k where k: "k < length (ptrs st)" "ptrs st ! k = Some q"
      using lookup_Some[OF Some] by blast
    have q: "q < length (objs st)"
      using wf_cell[OF w k(1)] k(2) by simp
    have pe: "ptrs st' = ptrs st" by (simp add: e ptrs_def)
    have same: "\<forall>c \<in> set (ptrs st). ID (deref st' c) = ID (deref st c) \<and>
                  ActivityDate (deref st' c) = ActivityDate (deref st c)"
    proof
      fix c assume "c \<in> set (ptrs st)"
      then obtain x where x: "c = Some x" "x < length (objs st)"
        using w by (fastforce simp: wf_def list_all_iff points_def split: option.splits)
      show "ID (deref st' c) = ID (deref st c) \<and> ActivityDate (deref st' c) = ActivityDate (deref st c)"
        using x q by (cases "x = q") (simp_all add: deref_def e)
    qed
    have "map ID (view st') = map ID (view st)"
      using same by (simp add: view_def pe)
    moreover have "map ActivityDate (view st') = map ActivityDate (view st)"
      using same by (simp add: view_def pe)
    ultimately show ?thesis using r(1,2) e q Some by simp
  qed
qed

section \<open>Lookup\<close>

text \<open>
  C8 as stated fails. The run \<open>swept_run\<close> of the session manager's own operations
  leaves the collection \<open>d\<close>, nil. \<^verbatim>\<open>GetSession\<close> reads \<^verbatim>\<open>val.ID\<close> of every
  cell up to the first match: for an ID that is not \<open>d\<close> it reaches the nil cell and
  panics, where the claim has it return not-found.
\<close>

theorem GetSession_nil_counterexample:
  "swept_run = Inr store_d_nil \<and>
   ptrs store_d_nil = [Some 3, None] \<and>
   \<not> wf store_d_nil \<and>
   GetSession store_d_nil ''x'' = Inl NilDeref"
  by code_simp

text \<open>
  C8, amended. For every well-formed store (the collection lies within its backing
  array and holds no nil cell) and every id, \<^verbatim>\<open>GetSession(id)\<close> returns without
  a panic, hands back the store exactly as it was (collection, values and activity
  timestamps included), and returns the first cell of the collection whose session has
  that ID: a pointer into the collection to a session with the ID, or nil when no
  session of the collection has it.
\<close>

theorem GetSession_reads_only:
  fixes st :: "'v store"
  assumes "wf st"
  shows "GetSession st i = Inr (st, lookup st i) \<and>
         (case lookup st i of
            None \<Rightarrow> i \<notin> ID ` set (view st)
          | Some r \<Rightarrow> Some r \<in> set (ptrs st) \<and> ID (objs st ! r) = i)"
proof (cases "lookup st i")
  case None
  then show ?thesis
    using GetSession_lookup[OF assms, of i] lookup_None[OF None assms] by simp
next
  case (Some r)
  obtain k where "k < length (ptrs st)" "ptrs st ! k = Some r" "ID (deref st (Some r)) = i"
    using lookup_Some[OF Some] by blast
  then have "Some r \<in> set (ptrs st)" "ID (objs st ! r) = i"
    by (auto simp: deref_def in_set_conv_nth)
  then show ?thesis
    using GetSession_lookup[OF assms, of i] Some by simp
qed

text \<open>The amended C8 at \<open>store_abc\<close>, looking up \<open>b\<close>.\<close>

theorem GetSession_reads_only_witness:
  "wf store_abc \<and>
   GetSession store_abc ''b'' = Inr (store_abc, lookup store_abc ''b'') \<and>
   (case lookup store_abc ''b'' of
      None \<Rightarrow> ''b'' \<notin> ID ` set (view store_abc)
    | Some r \<Rightarrow> Some r \<in> set (ptrs store_abc) \<and> ID (objs store_abc ! r) = ''b'')"
proof -
  have h: "wf store_abc" by code_simp
  show ?thesis
    using h GetSession_reads_only[OF h, of "''b''"] by simp
qed

section \<open>Replacing or adding a session\<close>

text \<open>
  C4 as stated fails. The collection holds \<open>b\<close>, last active at 0; the caller passes
  a session \<open>b\<close> with one value, last active at 50. \<^verbatim>\<open>SetSession\<close> assigns
  \<^verbatim>\<open>res.Values\<close> only: afterwards the stored \<open>b\<close> has the new value and is still
  last active at 0.
\<close>

theorem SetSession_activity_counterexample:
  "wf store_abc_in \<and>
   map ActivityDate (view store_abc_in) = [95, 0, 95] \<and>
   map ID (view store_abc_in) = [''a'', ''b'', ''c''] \<and>
   objs store_abc_in ! 3 = \<lparr>ID = ''b'', Values = [7], ActivityDate = 50\<rparr> \<and>
   SetSession no_spare store_abc_in (Some 3) =
     Inr (store_abc_in\<lparr>objs :=
       [a_session ''a'' 95, \<lparr>ID = ''b'', Values = [7], ActivityDate = 0\<rparr>, a_session ''c'' 95,
        \<lparr>ID = ''b'', Values = [7], ActivityDate = 50\<rparr>]\<rparr>) \<and>
   (case SetSession no_spare store_abc_in (Some 3) of
      Inl e \<Rightarrow> []
    | Inr st' \<Rightarrow> map ActivityDate (view st')) = map ActivityDate (view store_abc_in)"
  by code_simp

text \<open>
  C4, amended. \<^verbatim>\<open>SetSession(session)\<close> on a well-formed store, for a session
  object \<open>p\<close>: when the collection holds a record with the same ID, the Values of the
  first such record are replaced by the incoming Values (not merged), and nothing else
  changes: the collection, every ID and every activity timestamp, that of the replaced
  record included, stay as they were. When no record has the ID, the incoming record
  is appended to the collection.
\<close>

theorem SetSession_upsert:
  fixes st :: "'v store"
  assumes "wf st" and "p < length (objs st)"
  shows "\<exists>st'. SetSession g st (Some p) = Inr st' \<and>
           (case lookup st (ID (objs st ! p)) of
              Some r \<Rightarrow>
                st' = st\<lparr>objs := (objs st)[r := (objs st ! r)\<lparr>Values := Values (objs st ! p)\<rparr>]\<rparr> \<and>
                Values (objs st' ! r) = Values (objs st ! p) \<and>
                map ID (view st') = map ID (view st) \<and>
                map ActivityDate (view st') = map ActivityDate (view st)
            | None \<Rightarrow> objs st' = objs st \<and> view st' = view st @ [objs st ! p])"
proof -
  obtain st' where r: "SetSession g st (Some p) = Inr st'"
    "case lookup st (ID (objs st ! p)) of
              Some r \<Rightarrow>
                st' = st\<lparr>objs := (objs st)[r := (objs st ! r)\<lparr>Values := Values (objs st ! p)\<rparr>]\<rparr> \<and>
                r < length (objs st) \<and>
                map ID (view st') = map ID (view st) \<and>
                map ActivityDate (view st') = map ActivityDate (view st)
            | None \<Rightarrow>
                objs st' = objs st \<and> ptrs st' = ptrs st @ [Some p] \<and>
                view st' = view st @ [objs st ! p] \<and>
                ID (objs st ! p) \<notin> ID ` set (view st)"
    using SetSession_view[OF assms, of g] by blast
  show ?thesis
  proof (cases "lookup st (ID (objs st ! p))")
    case None
    then show ?thesis using r by simp
  next
    case (Some q)
    then show ?thesis using r by (cases "q = p") auto
  qed
qed

text \<open>
  Well-formedness matters: on the collection \<open>d\<close>, nil that \<open>swept_run\<close> leaves,
  \<^verbatim>\<open>SetSession\<close> of a session with a new ID panics in its lookup instead of
  appending.
\<close>

lemma SetSession_nil_panics:
  "SetSession g (store_d_nil\<lparr>objs := objs store_d_nil @ [a_session ''n'' 7]\<rparr>) (Some 5) =
     Inl NilDeref"
  by (simp add: SetSession_def GetSession_def store_d_nil_def range_val_def a_session_def
      eval_nat_numeral)

text \<open>The amended C4 at \<open>store_abc_in\<close>, for the session object at address 3.\<close>

theorem SetSession_upsert_witness:
  "wf store_abc_in \<and> 3 < length (objs store_abc_in) \<and>
   (\<exists>st'. SetSession no_spare store_abc_in (Some 3) = Inr st' \<and>
           (case lookup store_abc_in (ID (objs store_abc_in ! 3)) of
              Some r \<Rightarrow>
                st' = store_abc_in\<lparr>objs := (objs store_abc_in)[r := (objs store_abc_in ! r)\<lparr>Values := Values (objs store_abc_in ! 3)\<rparr>]\<rparr> \<and>
                Values (objs st' ! r) = Values (objs store_abc_in ! 3) \<and>
                map ID (view st') = map ID (view store_abc_in) \<and>
                map ActivityDate (view st') = map ActivityDate (view store_abc_in)
            | None \<Rightarrow> objs st' = objs store_abc_in \<and> view st' = view store_abc_in @ [objs store_abc_in ! 3]))"
proof -
  have h1: "wf store_abc_in" by code_simp
  have h2: "3 < length (objs store_abc_in)" by code_simp
  show ?thesis
    by (intro conjI h1 h2 SetSession_upsert[OF h1 h2])
qed

section \<open>One session per ID\<close>

text \<open>
  C3 as stated fails. \<open>store_abc\<close> holds one session per ID and \<^verbatim>\<open>Contains\<close>
  reports \<open>a\<close>; \<^verbatim>\<open>CreateSession\<close> with \<open>a\<close> appends a second record with that
  ID.
\<close>

theorem CreateSession_duplicate_counterexample:
  "wf store_abc \<and> unique_ids store_abc \<and>
   Contains store_abc ''a'' = Inr True \<and>
   (case CreateSession no_spare 100 store_abc ''a'' of
      Inl e \<Rightarrow> Inl e
    | Inr r \<Rightarrow> Inr (map ID (view (fst r)), unique_ids (fst r))) =
     Inr ([''a'', ''b'', ''c'', ''a''], False)"
  by code_simp

text \<open>
  C3, amended. From a well-formed store with at most one session per ID:
  \<^verbatim>\<open>CreateSession\<close>, at any time and for any ID, appends a new record and nothing
  else, so its result has at most one session per ID exactly when the ID was not in
  the collection before, which is what \<^verbatim>\<open>Contains\<close> reports: the caller has to
  check first. \<^verbatim>\<open>SetSession\<close> (for a session object \<open>p\<close>), \<^verbatim>\<open>DropSession\<close>, and
  \<^verbatim>\<open>CleanSessions\<close> at a time when at most one session is expired, return a
  well-formed store with at most one session per ID.
\<close>

theorem mutations_keep_unique_ids:
  fixes st :: "'v store"
  assumes "wf st" and "unique_ids st"
  shows "Contains st i = Inr (i \<in> ID ` set (view st)) \<and>
         (\<exists>st' c. CreateSession g now st i = Inr (st', c) \<and> wf st' \<and>
                   view st' = view st @ [\<lparr>ID = i, Values = [], ActivityDate = now\<rparr>] \<and>
                   unique_ids st' = (i \<notin> ID ` set (view st))) \<and>
         (p < length (objs st) \<longrightarrow>
            (\<exists>st'. SetSession g st (Some p) = Inr st' \<and> wf st' \<and> unique_ids st')) \<and>
         (\<exists>st'. DropSession g st j = Inr st' \<and> wf st' \<and> unique_ids st') \<and>
         (length (filter (stale (expired_at t (SessionTimeout (manager st)))) (view st)) \<le> 1 \<longrightarrow>
            (\<exists>st'. CleanSessions g t st = Inr st' \<and> wf st' \<and> unique_ids st'))"
proof (intro conjI impI)
  show "Contains st i = Inr (i \<in> ID ` set (view st))"
    by (rule Contains_iff[OF assms(1)])
  show "\<exists>st' c. CreateSession g now st i = Inr (st', c) \<and> wf st' \<and>
                   view st' = view st @ [\<lparr>ID = i, Values = [], ActivityDate = now\<rparr>] \<and>
                   unique_ids st' = (i \<notin> ID ` set (view st))"
  proof -
    obtain st' where r: "CreateSession g now st i = Inr (st', Some (length (objs st)))" "wf st'"
      "view st' = view st @ [\<lparr>ID = i, Values = [], ActivityDate = now\<rparr>]"
      using CreateSession_spec[OF assms(1), of g now i] by blast
    have "unique_ids st' = (i \<notin> ID ` set (view st))"
      using assms(2) by (auto simp: unique_ids_def r(3))
    then show ?thesis using r by blast
  qed
  show "\<exists>st'. SetSession g st (Some p) = Inr st' \<and> wf st' \<and> unique_ids st'"
    if p: "p < length (objs st)"
  proof -
    obtain st' where r: "SetSession g st (Some p) = Inr st'" "wf st'"
      "case lookup st (ID (objs st ! p)) of
              Some r \<Rightarrow>
                st' = st\<lparr>objs := (objs st)[r := (objs st ! r)\<lparr>Values := Values (objs st ! p)\<rparr>]\<rparr> \<and>
                r < length (objs st) \<and>
                map ID (view st') = map ID (view st) \<and>
                map ActivityDate (view st') = map ActivityDate (view st)
            | None \<Rightarrow>
                objs st' = objs st \<and> ptrs st' = ptrs st @ [Some p] \<and>
                view st' = view st @ [objs st ! p] \<and>
                ID (objs st ! p) \<notin> ID ` set (view st)"
      using SetSession_view[OF assms(1) p, of g] by blast
    have "unique_ids st'"
      using r(3) assms(2) by (auto simp: unique_ids_def split: option.splits)
    then show ?thesis using r(1,2) by blast
  qed
  show "\<exists>st'. DropSession g st j = Inr st' \<and> wf st' \<and> unique_ids st'"
    using DropSession_spec[OF assms(1,2), of g j] by blast
  show "\<exists>st'. CleanSessions g t st = Inr st' \<and> wf st' \<and> unique_ids st'"
    if one: "length (filter (stale (expired_at t (SessionTimeout (manager st)))) (view st)) \<le> 1"
  proof -
    obtain st' where r: "CleanSessions g t st = Inr st'" "wf st'"
      "\<exists>k. view st' = gone k (view st) \<or> st' = st"
      using CleanSessions_spec[OF assms(1) one, of g] by blast
    have "unique_ids st'"
      using r(3) assms(2) unique_gone[OF assms(2)] by blast
    then show ?thesis using r(1,2) by blast
  qed
qed

text \<open>
  The amended C3 at \<open>store_abc_in\<close>, and its \<^verbatim>\<open>CreateSession\<close> part at \<open>store_old2\<close>
  at a time when both sessions of that store are expired.
\<close>

theorem mutations_keep_unique_ids_witness:
  "wf store_abc_in \<and> unique_ids store_abc_in \<and>
   Contains store_abc_in ''d'' = Inr (''d'' \<in> ID ` set (view store_abc_in)) \<and>
   (\<exists>st' c. CreateSession no_spare 100 store_abc_in ''d'' = Inr (st', c) \<and> wf st' \<and>
             view st' = view store_abc_in @ [\<lparr>ID = ''d'', Values = [], ActivityDate = 100\<rparr>] \<and>
             unique_ids st' = (''d'' \<notin> ID ` set (view store_abc_in))) \<and>
   3 < length (objs store_abc_in) \<and>
   (\<exists>st'. SetSession no_spare store_abc_in (Some 3) = Inr st' \<and> wf st' \<and> unique_ids st') \<and>
   (\<exists>st'. DropSession no_spare store_abc_in ''b'' = Inr st' \<and> wf st' \<and> unique_ids st') \<and>
   length (filter (stale (expired_at 100 (SessionTimeout (manager store_abc_in)))) (view store_abc_in)) \<le> 1 \<and>
   (\<exists>st'. CleanSessions no_spare 100 store_abc_in = Inr st' \<and> wf st' \<and> unique_ids st') \<and>
   wf store_old2 \<and> unique_ids store_old2 \<and>
   length (filter (stale (expired_at 100 (SessionTimeout (manager store_old2)))) (view store_old2)) = 2 \<and>
   (\<exists>st' c. CreateSession no_spare 100 store_old2 ''c'' = Inr (st', c) \<and> wf st' \<and>
             view st' = view store_old2 @ [\<lparr>ID = ''c'', Values = [], ActivityDate = 100\<rparr>] \<and>
             unique_ids st' = (''c'' \<notin> ID ` set (view store_old2)))"
proof -
  have h1: "wf store_abc_in" by code_simp
  have h2: "unique_ids store_abc_in" by code_simp
  have h3: "3 < length (objs store_abc_in)" by code_simp
  have h4: "length (filter (stale (expired_at 100 (SessionTimeout (manager store_abc_in)))) (view store_abc_in)) \<le> 1"
    by code_simp
  have k1: "wf store_old2" by code_simp
  have k2: "unique_ids store_old2" by code_simp
  have k3: "length (filter (stale (expired_at 100 (SessionTimeout (manager store_old2)))) (view store_old2)) = 2"
    by code_simp
  note T = mutations_keep_unique_ids[OF h1 h2, of "''d''" no_spare 100 3 "''b''" 100]
  note U = mutations_keep_unique_ids[OF k1 k2, of "''c''" no_spare 100 0 "''a''" 100]
  show ?thesis
    using h1 h2 h3 h4 k1 k2 k3 T U by blast
qed

section \<open>Routing\<close>

lemma body_of_append: "body_of (xs @ ys) = body_of xs @ body_of ys"
  by (induction xs rule: body_of.induct) auto

lemma body_of_set_headers: "body_of (set_headers hs r) = body_of r"
  by (induction hs arbitrary: r) (auto simp: body_of_append)

lemma body_of_set_cookies: "body_of (set_cookies cs r) = body_of r"
  by (induction cs arbitrary: r) (auto simp: body_of_append)

lemma body_of_Execute_later: "body_of (snd (Execute_later r response)) = body_of response @ Data r"
  by (simp add: Execute_later_def body_of_append body_of_set_headers body_of_set_cookies)

text \<open>
  C6. For every request whose first path segment case-matches a reserved name, for
  every site (whatever files it holds) and every route table (whether or not a
  controller of that name is registered), dispatch is refused: the response receives
  exactly the output of the Error hook path for the refusal, the session store is
  untouched, and the static file fallback serves nothing for that path.
\<close>

theorem reserved_path_refused:
  fixes rm :: "'c route_manager"
  assumes "segments (target rq) = s # rest" and "reserved s"
  shows "handle_request fs rm resolve st rq response =
           (None, st, snd (Execute_later (error_path rm rq Refused_reserved_path) response)) \<and>
         (serve_file fs (segments (target rq)) :: 'c ActionResult option) = None \<and>
         body_of (snd (snd (handle_request fs rm resolve st rq response))) =
           body_of response @ Data (error_path rm rq Refused_reserved_path)"
  using assms by (simp add: handle_request_def serve_file_def body_of_Execute_later)

text \<open>
  C6 for \<open>/views/index.htm\<close> with that file on disk and the test controller as
  default: the body is that of its error hook, \<open>Error\<close>.
\<close>

theorem reserved_path_refused_witness:
  "segments (target (get_request ''/views/index.htm'')) = [''views'', ''index.htm''] \<and>
   reserved ''views'' \<and>
   files views_site [''views'', ''index.htm''] = Some ''Oh nos?'' \<and>
   Data (error_path test_manager (get_request ''/views/index.htm'') Refused_reserved_path) = ''Error'' \<and>
   handle_request views_site test_manager known_session 0 (get_request ''/views/index.htm'') [] =
     (None, 0, snd (Execute_later
        (error_path test_manager (get_request ''/views/index.htm'') Refused_reserved_path) [])) \<and>
   (serve_file views_site (segments (target (get_request ''/views/index.htm''))) :: nat ActionResult option) = None \<and>
   body_of (snd (snd (handle_request views_site test_manager known_session 0
      (get_request ''/views/index.htm'') []))) =
     body_of ([] :: nat call list) @
       Data (error_path test_manager (get_request ''/views/index.htm'') Refused_reserved_path)"
proof -
  have h1: "segments (target (get_request ''/views/index.htm'')) = [''views'', ''index.htm'']"
    by code_simp
  have h2: "reserved ''views''" by code_simp
  have h3: "files views_site [''views'', ''index.htm''] = Some ''Oh nos?''"
    by (simp add: views_site_def)
  have h4: "Data (error_path test_manager (get_request ''/views/index.htm'') Refused_reserved_path) = ''Error''"
    by (simp add: error_path_def default_factory_def test_manager_def register_controller_def
        error_result_def rmTestController_def NewActionResult_def)
  note T = reserved_path_refused[OF h1 h2, of views_site test_manager known_session 0 "[]"]
  show ?thesis
    using h1 h2 h3 h4 T by blast
qed





text \<open>
  Scenario 1 of the spec, the first request of the route manager test: the controller
  \<open>test\<close> runs its action \<open>Index\<close> for the segment \<open>index\<close>.
\<close>

lemma named_controller_scenario:
  "handle_request downloads_site test_manager known_session 0
     (get_request ''/test/index/param1/param2?qs=value&ext=more#MyFragment'') [] =
   (None, 0, [WriteHeader 200, Write ''Test Data''])"
  by code_simp

text \<open>
  C9. \<^verbatim>\<open>set_controller_sessions\<close> returns an error for an absent controller and
  for a controller whose request is absent. It has no access to the response; and
  where \<^verbatim>\<open>handle_request\<close> meets the failure (a factory whose controller has no
  request), it returns the failure and leaves response and session store as they
  were.
\<close>

theorem session_injection_failure_returned:
  fixes rm :: "'c route_manager" and c :: "'c controller"
  shows "set_controller_sessions resolve st (None :: 'c controller option) = Inl Missing_controller \<and>
         set_controller_sessions resolve st (Some (c\<lparr>req := None\<rparr>)) = Inl Missing_request \<and>
         (resolve_controller rm (segments (target rq)) = Some (mk, rest) \<and>
          \<not> (segments (target rq) \<noteq> [] \<and> reserved (hd (segments (target rq)))) \<and>
          req (mk rq) = None \<longrightarrow>
            handle_request fs rm resolve st rq response = (Some Missing_request, st, response))"
  by (auto simp: set_controller_sessions_def handle_request_def Let_def)

text \<open>C9 for a manager whose factory returns a controller without request.\<close>

theorem session_injection_failure_returned_witness:
  "resolve_controller bare_manager (segments (target (get_request ''/bare''))) = Some (\<lambda>rq. bare_controller, []) \<and>
   \<not> (segments (target (get_request ''/bare'')) \<noteq> [] \<and> reserved (hd (segments (target (get_request ''/bare''))))) \<and>
   req bare_controller = None \<and>
   set_controller_sessions known_session (0::nat) (Some bare_controller) = Inl Missing_request \<and>
   handle_request empty_site bare_manager known_session 0 (get_request ''/bare'') [] =
     (Some Missing_request, 0, [])"
proof -
  have s: "segments (target (get_request ''/bare'')) = [''bare'']" by code_simp
  have h1: "resolve_controller bare_manager (segments (target (get_request ''/bare''))) =
              Some (\<lambda>rq. bare_controller, [])"
    by (simp add: s resolve_controller_def bare_manager_def register_controller_def)
  have h2: "\<not> (segments (target (get_request ''/bare'')) \<noteq> [] \<and> reserved (hd (segments (target (get_request ''/bare'')))))"
    unfolding s by code_simp
  have h3: "req bare_controller = None" by (simp add: bare_controller_def)
  have e: "bare_controller\<lparr>req := None\<rparr> = bare_controller" by (simp add: bare_controller_def)
  note T = session_injection_failure_returned[of known_session "0::nat" bare_controller bare_manager
      "get_request ''/bare''" "\<lambda>rq. bare_controller" "[]" empty_site "[]"]
  have "set_controller_sessions known_session (0::nat) (Some bare_controller) = Inl Missing_request"
    using conjunct1[OF conjunct2[OF T]] by (simp add: e)
  moreover have "handle_request empty_site bare_manager known_session 0 (get_request ''/bare'') [] =
     (Some Missing_request, 0, [])"
    using conjunct2[OF conjunct2[OF T]] h1 h2 h3 by blast
  ultimately show ?thesis using h1 h2 h3 by blast
qed

section \<open>Action results: what Execute writes\<close>

lemma set_headers_eq: "set_headers hs response = response @ map (\<lambda>(k, v). HeaderSet k v) hs"
  by (induction hs arbitrary: response) auto

lemma set_cookies_eq: "set_cookies cs response = response @ map SetCookie cs"
  by (induction cs arbitrary: response) auto

text \<open>
  C10. The version 0.1 \<^verbatim>\<open>Execute\<close> returns an error exactly when \<^verbatim>\<open>Data\<close> is
  empty. In both cases it first sets every header and every cookie of the result on
  the response; with empty data it makes no further call (neither a status code nor a
  body is sent), with data it then sends the status code and the body.
\<close>

theorem Execute_error_iff_no_data:
  "(fst (Execute result response) \<noteq> None) = (Data result = []) \<and>
   snd (Execute result response) =
     response @ map (\<lambda>(k, v). HeaderSet k v) (Headers result) @ map SetCookie (Cookies result) @
       (if Data result = [] then [] else [WriteHeader (StatusCode result), Write (Data result)]) \<and>
   list_all (\<lambda>c. \<not> sends c)
     (map (\<lambda>(k, v). HeaderSet k v) (Headers result) @ map SetCookie (Cookies result))"
  by (auto simp: Execute_def set_headers_eq set_cookies_eq list_all_iff)

end
